theory Spec2Isabelle
  imports Complex_Main "HOL-Library.Word"
begin

unbundle bit_operations_syntax

section \<open>The multiscan driver: data model\<close>

text \<open>
  A shallow embedding of \<^verbatim>\<open>src/multiscan_driver.cpp\<close>. Everything the driver does lives in
  the class \<^verbatim>\<open>MultiscanNode\<close>: the constructor, \<^verbatim>\<open>start\<close>, \<^verbatim>\<open>shutdown\<close> and the receiver
  thread's body \<^verbatim>\<open>run_receiver\<close>. The blocks of \<^verbatim>\<open>run_receiver\<close> are embedded one by one,
  each definition naming the source lines it follows.

  Operations whose behaviour is undefined in C++ (indexing the \<^verbatim>\<open>std::array\<close> of slots out of
  range, \<^verbatim>\<open>front()\<close> of an empty deque, an iterator range that ends before it starts) and the
  exception of \<^verbatim>\<open>std::thread::join\<close> are values of the type \<open>fault\<close>.
\<close>

type_synonym byte = "8 word"

datatype fault =
    ThreadNotJoinable
  | SlotIndexOutOfRange
  | FrontOfEmptyDeque
  | BufferRangeInvalid

subsection \<open>Point field layout (lines 24--56)\<close>

text \<open>
  The layout is chosen at compile time by the macro \<^verbatim>\<open>POINT_FIELD_SECTIONS_ENABLED\<close>; here it is
  the argument \<open>S\<close> of everything that depends on it. A C comparison yields the integer 0 or 1.
\<close>

definition POINT_FIELD_ENABLE_UP_TO_XYZ :: nat where
  "POINT_FIELD_ENABLE_UP_TO_XYZ = 0"

definition POINT_FIELD_ENABLE_UP_TO_INTENSITY :: nat where
  "POINT_FIELD_ENABLE_UP_TO_INTENSITY = 1"

definition POINT_FIELD_ENABLE_UP_TO_RANGE :: nat where
  "POINT_FIELD_ENABLE_UP_TO_RANGE = 2"

definition POINT_FIELD_ENABLE_UP_TO_ANGULAR :: nat where
  "POINT_FIELD_ENABLE_UP_TO_ANGULAR = 3"

definition POINT_FIELD_ENABLE_UP_TO_POINT_IDX :: nat where
  "POINT_FIELD_ENABLE_UP_TO_POINT_IDX = 4"

definition POINT_FIELD_ENABLE_TS :: nat where
  "POINT_FIELD_ENABLE_TS = 8"

definition POINT_FIELD_ENABLE_REFLECTOR :: nat where
  "POINT_FIELD_ENABLE_REFLECTOR = 16"

definition POINT_FIELD_ENABLE_ALL :: nat where
  "POINT_FIELD_ENABLE_ALL =
     ((POINT_FIELD_ENABLE_UP_TO_POINT_IDX OR POINT_FIELD_ENABLE_TS) OR POINT_FIELD_ENABLE_REFLECTOR)"

definition POINT_FIELD_ENABLE_XYZTR :: nat where
  "POINT_FIELD_ENABLE_XYZTR =
     ((POINT_FIELD_ENABLE_UP_TO_XYZ OR POINT_FIELD_ENABLE_TS) OR POINT_FIELD_ENABLE_REFLECTOR)"

definition c_bool :: "bool \<Rightarrow> nat" where
  "c_bool b = (if b then 1 else 0)"

definition NUM_CONTIGUOUS_POINT_FIELDS :: "nat \<Rightarrow> nat" where
  "NUM_CONTIGUOUS_POINT_FIELDS S =
     3 +
     c_bool ((S AND 4) \<ge> 1) +
     c_bool ((S AND 4) \<ge> 2) +
     c_bool ((S AND 4) \<ge> 3) * 2 +
     c_bool ((S AND 4) \<ge> 4) * 3"

definition NUM_POINT_FIELDS :: "nat \<Rightarrow> nat" where
  "NUM_POINT_FIELDS S =
     NUM_CONTIGUOUS_POINT_FIELDS S +
     c_bool ((S AND POINT_FIELD_ENABLE_TS) > 0) * 2 +
     c_bool ((S AND POINT_FIELD_ENABLE_REFLECTOR) > 0)"

text \<open>Lines 431--432: the byte lengths derived from the field counts.\<close>

definition POINT_CONTINUOUS_BYTE_LEN :: "nat \<Rightarrow> nat" where
  "POINT_CONTINUOUS_BYTE_LEN S = NUM_CONTIGUOUS_POINT_FIELDS S * 4"

definition POINT_BYTE_LEN :: "nat \<Rightarrow> nat" where
  "POINT_BYTE_LEN S = NUM_POINT_FIELDS S * 4"

text \<open>Lines 139--219: the field descriptors published with every frame.\<close>

datatype field_datatype = FLOAT32 | UINT32

record PointField =
  pf_name :: string
  pf_datatype :: field_datatype
  pf_count :: nat
  pf_offset :: nat

definition field :: "string \<Rightarrow> field_datatype \<Rightarrow> nat \<Rightarrow> PointField" where
  "field n t off = \<lparr>pf_name = n, pf_datatype = t, pf_count = 1, pf_offset = off\<rparr>"

definition scan_fields :: "nat \<Rightarrow> PointField list" where
  "scan_fields S =
     [field ''x'' FLOAT32 0, field ''y'' FLOAT32 4, field ''z'' FLOAT32 8] @
     (if (S AND 4) \<ge> POINT_FIELD_ENABLE_UP_TO_INTENSITY
      then [field ''intensity'' FLOAT32 12] else []) @
     (if (S AND 4) \<ge> POINT_FIELD_ENABLE_UP_TO_RANGE
      then [field ''range'' FLOAT32 16] else []) @
     (if (S AND 4) \<ge> POINT_FIELD_ENABLE_UP_TO_ANGULAR
      then [field ''azimuth'' FLOAT32 20, field ''elevation'' FLOAT32 24] else []) @
     (if (S AND 4) \<ge> POINT_FIELD_ENABLE_UP_TO_POINT_IDX
      then [field ''layer'' UINT32 28, field ''echo'' UINT32 32, field ''index'' UINT32 36]
      else []) @
     (if (S AND POINT_FIELD_ENABLE_TS) \<noteq> 0
      then [field ''tl'' UINT32 (4 * NUM_CONTIGUOUS_POINT_FIELDS S),
            field ''th'' UINT32 (4 * NUM_CONTIGUOUS_POINT_FIELDS S + 4)]
      else []) @
     (if (S AND POINT_FIELD_ENABLE_REFLECTOR) \<noteq> 0
      then [field ''reflective'' FLOAT32
              ((4 * NUM_CONTIGUOUS_POINT_FIELDS S) +
               (8 * c_bool ((S AND POINT_FIELD_ENABLE_TS) > 0)))]
      else [])"

subsection \<open>Thread lifecycle (lines 103, 119--239, 525--533)\<close>

text \<open>
  Of the node, the lifecycle functions read and write the atomic flag \<^verbatim>\<open>is_running\<close>
  (initialised to \<^verbatim>\<open>true\<close> by its member initialiser, line 103) and the thread handle, of
  which only \<^verbatim>\<open>joinable()\<close> matters. \<^verbatim>\<open>std::thread::join\<close> on a handle that is not joinable
  throws \<^verbatim>\<open>std::system_error\<close>.
\<close>

record node =
  is_running :: bool
  recv_thread_joinable :: bool

definition start :: "node \<Rightarrow> node" where
  "start n =
     (if \<not> recv_thread_joinable n
      then n\<lparr>is_running := True, recv_thread_joinable := True\<rparr>
      else n)"

definition MultiscanNode :: "bool \<Rightarrow> node" where
  "MultiscanNode autostart =
     (let n = \<lparr>is_running = True, recv_thread_joinable = False\<rparr>
      in if autostart then start n else n)"

definition thread_join :: "node \<Rightarrow> fault + node" where
  "thread_join n =
     (if recv_thread_joinable n then Inr (n\<lparr>recv_thread_joinable := False\<rparr>)
      else Inl ThreadNotJoinable)"

definition shutdown :: "node \<Rightarrow> fault + node" where
  "shutdown n =
     (if is_running n \<or> recv_thread_joinable n
      then thread_join (n\<lparr>is_running := False\<rparr>)
      else Inr n)"

subsection \<open>Segments, points and published messages\<close>

text \<open>
  The headers that declare the segment type (\<^verbatim>\<open>scansegment_parser_output.h\<close>) and the
  messages are not part of the sources at hand; the records below hold the members that
  \<^verbatim>\<open>run_receiver\<close> and \<^verbatim>\<open>swapSegmentsNoIMU\<close> read and write, under their names there.
  A point is copied into a frame through \<^verbatim>\<open>memcpy\<close> from its address, so a point carries its
  object representation \<open>point_mem\<close> next to the two members that are written separately;
  \<open>reflectorbit\<close> is held as the bit pattern of the \<^verbatim>\<open>float\<close> it converts to.
  The second and nanosecond counters are 32 bit wide, the index and telegram counter are
  \<^verbatim>\<open>int\<close>s.
\<close>

record LidarPoint =
  point_mem :: "byte list"
  lidar_timestamp_microsec :: "64 word"
  reflectorbit :: "32 word"

record Scanline =
  points :: "LidarPoint list"

record Scangroup =
  scanlines :: "Scanline list"

record CompactImuData =
  valid :: bool
  acceleration :: "real \<times> real \<times> real"
  angular_velocity :: "real \<times> real \<times> real"
  orientation :: "real \<times> real \<times> real \<times> real"

record ScanSegmentParserOutput =
  scandata :: "Scangroup list"
  timestamp :: string
  timestamp_sec :: "32 word"
  timestamp_nsec :: "32 word"
  segmentIndex :: int
  telegramCnt :: int
  imudata :: CompactImuData

text \<open>The value a default-constructed segment has: empty, all counters zero, no inertial sample.\<close>

definition CompactImuData_default :: CompactImuData where
  "CompactImuData_default =
     \<lparr>valid = False, acceleration = (0, 0, 0), angular_velocity = (0, 0, 0),
      orientation = (0, 0, 0, 0)\<rparr>"

definition ScanSegmentParserOutput_default :: ScanSegmentParserOutput where
  "ScanSegmentParserOutput_default =
     \<lparr>scandata = [], timestamp = [], timestamp_sec = 0, timestamp_nsec = 0,
      segmentIndex = 0, telegramCnt = 0, imudata = CompactImuData_default\<rparr>"

record Imu =
  imu_stamp_sec :: "32 word"
  imu_stamp_nanosec :: "32 word"
  imu_frame_id :: string
  imu_angular_velocity :: "real \<times> real \<times> real"
  imu_linear_acceleration :: "real \<times> real \<times> real"
  imu_orientation :: "real \<times> real \<times> real \<times> real"

record PointCloud2 =
  pc_stamp_sec :: "32 word"
  pc_stamp_nanosec :: "32 word"
  pc_frame_id :: string
  pc_height :: nat
  pc_width :: nat
  pc_fields :: "PointField list"
  pc_is_bigendian :: bool
  pc_point_step :: nat
  pc_row_step :: nat
  pc_data :: "byte list"
  pc_is_dense :: bool

datatype published = ImuMsg Imu | ScanMsg PointCloud2

text \<open>
  The members of \<^verbatim>\<open>config\<close> (lines 77--94) that the receive loop reads. The times are in
  seconds, as in the source.
\<close>

record config =
  lidar_frame_id :: string
  use_msgpack :: bool
  udp_dropout_reset_thresh :: real
  udp_receive_timeout :: real
  max_segment_buffering :: int

definition MS100_SEGMENTS_PER_FRAME :: nat where
  "MS100_SEGMENTS_PER_FRAME = 12"

definition MS100_POINTS_PER_SEGMENT_ECHO :: nat where
  "MS100_POINTS_PER_SEGMENT_ECHO = 900"

text \<open>Conversion of an \<^verbatim>\<open>int\<close> to \<^verbatim>\<open>size_t\<close> (64 bit): a negative value wraps.\<close>

definition size_t_of_int :: "int \<Rightarrow> nat" where
  "size_t_of_int i = nat (i mod 2 ^ 64)"

subsection \<open>The ring buffer: absorbing a segment (lines 108--116, 294--295, 414--424)\<close>

text \<open>
  \<^verbatim>\<open>samples\<close> is an array of twelve deques, \<^verbatim>\<open>filled_segments\<close> a \<^verbatim>\<open>size_t\<close> used as a set of
  bits. The array is a function from the index; it exists at the indices below
  \<open>MS100_SEGMENTS_PER_FRAME\<close> only, and \<^verbatim>\<open>operator[]\<close> does not check.
\<close>

record accumulator =
  samples :: "nat \<Rightarrow> ScanSegmentParserOutput list"
  filled_segments :: "64 word"

definition accumulator_init :: accumulator where
  "accumulator_init = \<lparr>samples = (\<lambda>_. []), filled_segments = 0\<rparr>"

definition swapSegmentsNoIMU ::
  "ScanSegmentParserOutput \<Rightarrow> ScanSegmentParserOutput \<Rightarrow>
   ScanSegmentParserOutput \<times> ScanSegmentParserOutput" where
  "swapSegmentsNoIMU a b =
     (a\<lparr>scandata := scandata b, timestamp := timestamp b, timestamp_sec := timestamp_sec b,
        timestamp_nsec := timestamp_nsec b, segmentIndex := segmentIndex b,
        telegramCnt := telegramCnt b\<rparr>,
      b\<lparr>scandata := scandata a, timestamp := timestamp a, timestamp_sec := timestamp_sec a,
        timestamp_nsec := timestamp_nsec a, segmentIndex := segmentIndex a,
        telegramCnt := telegramCnt a\<rparr>)"

definition deque_resize ::
  "nat \<Rightarrow> ScanSegmentParserOutput list \<Rightarrow> ScanSegmentParserOutput list" where
  "deque_resize n q = take n q @ replicate (n - length q) ScanSegmentParserOutput_default"

text \<open>
  Lines 414--424. The shift \<^verbatim>\<open>1 << idx\<close> is reached with \<open>idx < 12\<close> only, where it cannot
  overflow.
\<close>

definition absorb ::
  "int \<Rightarrow> accumulator \<Rightarrow> ScanSegmentParserOutput \<Rightarrow> fault + accumulator" where
  "absorb max_buffering a segment =
     (if length (scandata segment) > 0 then
        (let idx = size_t_of_int (segmentIndex segment) in
         if idx \<ge> MS100_SEGMENTS_PER_FRAME then Inl SlotIndexOutOfRange
         else
           (let q = ScanSegmentParserOutput_default # samples a idx;
                q' = (if length q > size_t_of_int max_buffering
                      then deque_resize (size_t_of_int max_buffering) q else q)
            in case q' of
                 [] \<Rightarrow> Inl FrontOfEmptyDeque
               | front # rest \<Rightarrow>
                   Inr (a\<lparr>samples := (samples a)(idx := fst (swapSegmentsNoIMU front segment) # rest),
                          filled_segments := filled_segments a OR push_bit idx 1\<rparr>)))
      else Inr a)"

text \<open>Absorbing a sequence of segments, stopping at the first fault.\<close>

fun absorb_all ::
  "int \<Rightarrow> accumulator \<Rightarrow> ScanSegmentParserOutput list \<Rightarrow> fault + accumulator" where
  "absorb_all m a [] = Inr a"
| "absorb_all m a (s # ss) =
     (case absorb m a s of Inl f \<Rightarrow> Inl f | Inr a' \<Rightarrow> absorb_all m a' ss)"

subsection \<open>The frame builder (lines 426--482)\<close>

definition le_bytes :: "nat \<Rightarrow> 'a::len word \<Rightarrow> byte list" where
  "le_bytes n w = map (\<lambda>k. ucast (drop_bit (8 * k) w)) [0..<n]"

definition write_at :: "nat \<Rightarrow> byte list \<Rightarrow> byte list \<Rightarrow> byte list" where
  "write_at off bs r = take off r @ take (length r - off) bs @ drop (off + length bs) r"

text \<open>
  Lines 449--462: the record of one point. The vector grows by \<open>POINT_BYTE_LEN\<close> zero bytes;
  the contiguous block is copied from the point, the time stamp is stored through a
  \<^verbatim>\<open>uint64_t\<close> pointer at element \<open>POINT_CONTINUOUS_BYTE_LEN div 8\<close>, the reflector value
  through a \<^verbatim>\<open>float\<close> pointer. All three writes stay inside the record.
\<close>

definition point_record :: "nat \<Rightarrow> LidarPoint \<Rightarrow> byte list" where
  "point_record S p =
     (let r0 = replicate (POINT_BYTE_LEN S) (0::byte);
          r1 = write_at 0 (take (POINT_CONTINUOUS_BYTE_LEN S) (point_mem p)) r0;
          r2 = (if (S AND POINT_FIELD_ENABLE_TS) \<noteq> 0
                then write_at (8 * (POINT_CONTINUOUS_BYTE_LEN S div 8))
                       (le_bytes 8 (lidar_timestamp_microsec p)) r1
                else r1);
          r3 = (if (S AND POINT_FIELD_ENABLE_REFLECTOR) \<noteq> 0
                then write_at (4 * ((POINT_CONTINUOUS_BYTE_LEN S div 4) +
                                    (c_bool ((S AND POINT_FIELD_ENABLE_TS) > 0) * 2)))
                       (le_bytes 4 (reflectorbit p)) r2
                else r2)
      in r3)"

definition segment_points :: "ScanSegmentParserOutput \<Rightarrow> LidarPoint list" where
  "segment_points seg = concat (map points (concat (map scanlines (scandata seg))))"

definition segment_records :: "nat \<Rightarrow> ScanSegmentParserOutput \<Rightarrow> byte list" where
  "segment_records S seg = concat (map (point_record S) (segment_points seg))"

definition segment_ts :: "ScanSegmentParserOutput \<Rightarrow> 64 word" where
  "segment_ts seg = ucast (timestamp_sec seg) * 1000000000 + ucast (timestamp_nsec seg)"

text \<open>
  Lines 436--467: the loop over the twelve queues, here over the list of their indices.
  The state is the earliest time stamp so far, the bytes so far and the queues.
\<close>

fun assemble_slots ::
  "nat \<Rightarrow> nat list \<Rightarrow> 64 word \<times> byte list \<times> (nat \<Rightarrow> ScanSegmentParserOutput list) \<Rightarrow>
   fault + (64 word \<times> byte list \<times> (nat \<Rightarrow> ScanSegmentParserOutput list))" where
  "assemble_slots S [] st = Inr st"
| "assemble_slots S (i # js) (earliest_ts, data, smp) =
     (case smp i of
        [] \<Rightarrow> Inl FrontOfEmptyDeque
      | seg # older \<Rightarrow>
          (let ts = segment_ts seg;
               earliest_ts' = (if ts < earliest_ts then ts else earliest_ts);
               data' = data @ segment_records S seg
           in assemble_slots S js (earliest_ts', data', smp(i := []))))"

definition assemble_scan :: "config \<Rightarrow> nat \<Rightarrow> accumulator \<Rightarrow> fault + (PointCloud2 \<times> accumulator)" where
  "assemble_scan cfg S a =
     (case assemble_slots S [0..<MS100_SEGMENTS_PER_FRAME] (- 1, [], samples a) of
        Inl f \<Rightarrow> Inl f
      | Inr (earliest_ts, data, smp) \<Rightarrow>
          Inr (\<lparr>pc_stamp_sec = ucast (earliest_ts div 1000000000),
                pc_stamp_nanosec = ucast (earliest_ts mod 1000000000),
                pc_frame_id = lidar_frame_id cfg,
                pc_height = 1,
                pc_width = (length data div POINT_BYTE_LEN S) mod 2 ^ 32,
                pc_fields = scan_fields S,
                pc_is_bigendian = False,
                pc_point_step = POINT_BYTE_LEN S,
                pc_row_step = length data mod 2 ^ 32,
                pc_data = data,
                pc_is_dense = True\<rparr>,
               a\<lparr>samples := smp, filled_segments := 0\<rparr>))"

text \<open>Line 426: the test that starts the assembly.\<close>

definition frame_complete :: "accumulator \<Rightarrow> bool" where
  "frame_complete a \<longleftrightarrow> filled_segments a \<ge> push_bit MS100_SEGMENTS_PER_FRAME 1 - 1"

text \<open>Lines 389--412: the inertial sample of a segment, published at once.\<close>

definition imu_msg :: "config \<Rightarrow> ScanSegmentParserOutput \<Rightarrow> Imu" where
  "imu_msg cfg segment =
     \<lparr>imu_stamp_sec = timestamp_sec segment,
      imu_stamp_nanosec = timestamp_nsec segment,
      imu_frame_id = lidar_frame_id cfg,
      imu_angular_velocity = angular_velocity (imudata segment),
      imu_linear_acceleration = acceleration (imudata segment),
      imu_orientation = orientation (imudata segment)\<rparr>"

text \<open>
  Lines 389--483: what happens to a decoded segment. The result is the accumulator and the
  messages published, in order.
\<close>

definition process_segment ::
  "config \<Rightarrow> nat \<Rightarrow> accumulator \<Rightarrow> ScanSegmentParserOutput \<Rightarrow>
   fault + (accumulator \<times> published list)" where
  "process_segment cfg S a segment =
     (let imu = (if valid (imudata segment) then [ImuMsg (imu_msg cfg segment)] else []) in
      case absorb (max_segment_buffering cfg) a segment of
        Inl f \<Rightarrow> Inl f
      | Inr a1 \<Rightarrow>
          if frame_complete a1 then
            (case assemble_scan cfg S a1 of
               Inl f \<Rightarrow> Inl f
             | Inr (scan, a2) \<Rightarrow> Inr (a2, imu @ [ScanMsg scan]))
          else Inr (a1, imu))"

text \<open>
  The decoded segments of successive iterations, processed one after the other from an
  accumulator: the result is the accumulator handed on by the last \<open>process_segment\<close> and
  the messages published, in order.
\<close>

fun process_all ::
  "config \<Rightarrow> nat \<Rightarrow> accumulator \<Rightarrow> ScanSegmentParserOutput list \<Rightarrow>
   fault + (accumulator \<times> published list)" where
  "process_all cfg S a [] = Inr (a, [])"
| "process_all cfg S a (s # ss) =
     (case process_segment cfg S a s of
        Inl f \<Rightarrow> Inl f
      | Inr (a', out) \<Rightarrow>
          (case process_all cfg S a' ss of
             Inl f \<Rightarrow> Inl f
           | Inr (a'', outs) \<Rightarrow> Inr (a'', out @ outs)))"

subsection \<open>The receive loop (lines 288--498)\<close>

text \<open>
  The socket, the CRC, the byte conversion and the two parsers are declared in headers that
  are not among the sources; they are parameters of the loop, collected in \<open>parsers\<close>.
  \<open>Convert4Byte\<close> is given the four bytes it reads. \<open>ParseSegment\<close> is the probe of the
  compact format: from the buffer and the number of bytes received it yields the success
  flag and the values it leaves in \<^verbatim>\<open>payload_length_bytes\<close> and \<^verbatim>\<open>num_bytes_required\<close>.
  The two \<^verbatim>\<open>Parse\<close> functions yield the decoded segment, or \<open>None\<close> where they return
  \<^verbatim>\<open>false\<close>.
\<close>

record parsers =
  Convert4Byte :: "byte list \<Rightarrow> 32 word"
  crc32 :: "32 word \<Rightarrow> byte list \<Rightarrow> 32 word"
  ParseSegment :: "byte list \<Rightarrow> nat \<Rightarrow> bool \<times> 32 word \<times> 32 word"
  MsgPackParser_Parse :: "byte list \<Rightarrow> real \<Rightarrow> ScanSegmentParserOutput option"
  CompactDataParser_Parse :: "byte list \<Rightarrow> real \<Rightarrow> ScanSegmentParserOutput option"

text \<open>
  What one call of \<^verbatim>\<open>Receive\<close> brings: the bytes (none when the call times out or is
  cancelled), the reading of the system clock when the call returns, in seconds, and the
  value of the flag \<^verbatim>\<open>is_running\<close> from then on, which another thread may have cleared
  meanwhile. The readings of the clock on lines 310, 323 and 334 are taken to be the one of
  the last \<^verbatim>\<open>Receive\<close>; the two readings of lines 487 and 489 come with the input of the
  iteration, as a pair.
\<close>

record recv_event =
  ev_data :: "byte list"
  ev_time :: real
  ev_running :: bool

text \<open>The lines written with \<^verbatim>\<open>RCLCPP_INFO\<close> in the loop, and the verbose probe of line 329.\<close>

datatype log_line =
    CompactPayloadParseFailed
  | CrcPayloadCheckFailed
  | MsgpackParseFailed
  | CompactParseFailed
  | ParseSegmentVerbose

text \<open>The variables of lines 288--295 and what the loop reads and writes outside them.\<close>

record receiver =
  udp_buffer :: "byte list"
  udp_recv_timeout :: real
  timestamp_last_udp_recv :: real
  frame_acc :: accumulator
  now :: real
  running :: bool
  published_msgs :: "published list"
  logged :: "log_line list"

datatype 'a outcome = Done 'a | Fault fault | Blocked

definition RECV_BUFFER_SIZE :: nat where
  "RECV_BUFFER_SIZE = 64 * 1024"

definition udp_msg_start_seq :: "byte list" where
  "udp_msg_start_seq = [2, 2, 2, 2]"

definition receiver_init :: "real \<Rightarrow> receiver" where
  "receiver_init t =
     \<lparr>udp_buffer = replicate RECV_BUFFER_SIZE 0,
      udp_recv_timeout = - 1,
      timestamp_last_udp_recv = t,
      frame_acc = accumulator_init,
      now = t,
      running = True,
      published_msgs = [],
      logged = []\<rparr>"

text \<open>Line 301: the datagram is written to the front of the buffer.\<close>

definition Receive :: "receiver \<Rightarrow> recv_event \<Rightarrow> receiver \<times> nat" where
  "Receive st e =
     (st\<lparr>udp_buffer := ev_data e @ drop (length (ev_data e)) (udp_buffer st),
         now := ev_time e, running := ev_running e\<rparr>,
      length (ev_data e))"

text \<open>
  Lines 336--340: a chunk is received into a fresh buffer and inserted into \<^verbatim>\<open>udp_buffer\<close> at
  position \<^verbatim>\<open>bytes_received\<close>, which never exceeds the length of the buffer.
\<close>

definition receive_chunk :: "receiver \<times> nat \<Rightarrow> recv_event \<Rightarrow> receiver \<times> nat" where
  "receive_chunk sn e =
     (case sn of (st, bytes_received) \<Rightarrow>
        (st\<lparr>udp_buffer := take bytes_received (udp_buffer st) @ ev_data e @
                             drop bytes_received (udp_buffer st),
            now := ev_time e, running := ev_running e\<rparr>,
         bytes_received + length (ev_data e)))"

text \<open>The time test of lines 323 and 334.\<close>

definition within_timeout :: "receiver \<Rightarrow> real \<Rightarrow> bool" where
  "within_timeout st recv_start_timestamp \<longleftrightarrow>
     udp_recv_timeout st < 0 \<or> now st - recv_start_timestamp < udp_recv_timeout st"

text \<open>
  Lines 333--341, the inner loop. It takes the results of its \<^verbatim>\<open>Receive\<close> calls from a list
  and returns what is left of it. When the list is used up and the loop wants another chunk,
  the call blocks for good: the result is \<open>None\<close>.
\<close>

fun receive_chunks ::
  "real \<Rightarrow> nat \<Rightarrow> receiver \<times> nat \<Rightarrow> recv_event list \<Rightarrow>
   ((receiver \<times> nat) \<times> recv_event list) option" where
  "receive_chunks t0 num_bytes_required sn [] =
     (if running (fst sn) \<and> snd sn < num_bytes_required + 4 \<and> within_timeout (fst sn) t0
      then None else Some (sn, []))"
| "receive_chunks t0 num_bytes_required sn (e # es) =
     (if running (fst sn) \<and> snd sn < num_bytes_required + 4 \<and> within_timeout (fst sn) t0
      then receive_chunks t0 num_bytes_required (receive_chunk sn e) es
      else Some (sn, e # es))"

text \<open>
  Lines 319--342, the outer loop, with fuel: one unit for each evaluation of its condition.
  The result is \<^verbatim>\<open>parse_success\<close>, \<^verbatim>\<open>payload_length_bytes\<close>, the state and
  \<^verbatim>\<open>bytes_received\<close>; \<open>None\<close> when the fuel runs out or a \<^verbatim>\<open>Receive\<close> blocks for good.
\<close>

fun accumulate ::
  "nat \<Rightarrow> parsers \<Rightarrow> real \<Rightarrow> 32 word \<Rightarrow> receiver \<times> nat \<Rightarrow> recv_event list \<Rightarrow>
   (bool \<times> 32 word \<times> (receiver \<times> nat)) option" where
  "accumulate 0 P t0 payload_length_bytes sn es = None"
| "accumulate (Suc fuel) P t0 payload_length_bytes sn es =
     (if \<not> running (fst sn) then Some (False, payload_length_bytes, sn)
      else
        (case ParseSegment P (udp_buffer (fst sn)) (snd sn) of
           (parse_success, payload_length_bytes', num_bytes_required) \<Rightarrow>
             if parse_success then Some (True, payload_length_bytes', sn)
             else if \<not> within_timeout (fst sn) t0 then Some (False, payload_length_bytes', sn)
             else if unat num_bytes_required > 1024 * 1024
               then Some (False, payload_length_bytes',
                          ((fst sn)\<lparr>logged := logged (fst sn) @ [ParseSegmentVerbose]\<rparr>, snd sn))
             else
               (case receive_chunks t0 (unat num_bytes_required) sn es of
                  None \<Rightarrow> None
                | Some (sn', es') \<Rightarrow> accumulate fuel P t0 payload_length_bytes' sn' es')))"

text \<open>
  Lines 485--496: the choice of the timeout of the next \<^verbatim>\<open>Receive\<close>. The clock is read twice:
  \<open>fst clk\<close> is the reading of line 487, \<open>snd clk\<close> the reading of line 489.
\<close>

definition update_recv_timeout ::
  "config \<Rightarrow> receiver \<Rightarrow> nat \<Rightarrow> real \<times> real \<Rightarrow> receiver" where
  "update_recv_timeout cfg st bytes_received clk =
     (let st1 = (if bytes_received > 0 then st\<lparr>timestamp_last_udp_recv := fst clk\<rparr> else st)
      in if snd clk - timestamp_last_udp_recv st1 > udp_dropout_reset_thresh cfg
         then st1\<lparr>udp_recv_timeout := - 1\<rparr>
         else st1\<lparr>udp_recv_timeout := udp_receive_timeout cfg\<rparr>)"

text \<open>
  Lines 369--496: the decoder is called on the buffer; a segment is processed and the
  timeout chosen, a failure is logged and ends the iteration (\<^verbatim>\<open>continue\<close>).
\<close>

definition decode_and_process ::
  "parsers \<Rightarrow> config \<Rightarrow> nat \<Rightarrow> real \<Rightarrow> real \<times> real \<Rightarrow> receiver \<Rightarrow> nat \<Rightarrow>
   receiver outcome" where
  "decode_and_process P cfg S recv_start_timestamp clk st bytes_received =
     (case (if use_msgpack cfg
            then MsgPackParser_Parse P (udp_buffer st) recv_start_timestamp
            else CompactDataParser_Parse P (udp_buffer st) recv_start_timestamp) of
        None \<Rightarrow>
          Done (st\<lparr>logged := logged st @
                   [if use_msgpack cfg then MsgpackParseFailed else CompactParseFailed]\<rparr>)
      | Some segment \<Rightarrow>
          (case process_segment cfg S (frame_acc st) segment of
             Inl f \<Rightarrow> Fault f
           | Inr (a, out) \<Rightarrow>
               Done (update_recv_timeout cfg
                      (st\<lparr>frame_acc := a, published_msgs := published_msgs st @ out\<rparr>)
                      bytes_received clk)))"

text \<open>
  Lines 358--367 and what follows them. The pointer \<^verbatim>\<open>data() + bytes_valid - 4\<close> and the range
  of \<^verbatim>\<open>msgpack_payload\<close> are valid only if the four bytes and the range lie in the buffer.
\<close>

definition verify_and_process ::
  "parsers \<Rightarrow> config \<Rightarrow> nat \<Rightarrow> real \<Rightarrow> real \<times> real \<Rightarrow> receiver \<Rightarrow> nat \<Rightarrow> nat \<Rightarrow> nat \<Rightarrow>
   receiver outcome" where
  "verify_and_process P cfg S recv_start_timestamp clk st bytes_received bytes_to_receive
       udp_payload_offset =
     (let bytes_valid = min bytes_received bytes_to_receive in
      if bytes_valid < 4 \<or> length (udp_buffer st) < bytes_valid \<or>
         bytes_valid - 4 < udp_payload_offset
      then Fault BufferRangeInvalid
      else
        (let u32PayloadCRC = Convert4Byte P (take 4 (drop (bytes_valid - 4) (udp_buffer st)));
             msgpack_payload = take (bytes_valid - 4 - udp_payload_offset)
                                 (drop udp_payload_offset (udp_buffer st));
             u32MsgPackCRC = crc32 P 0 msgpack_payload
         in if u32PayloadCRC \<noteq> u32MsgPackCRC
            then Done (st\<lparr>logged := logged st @ [CrcPayloadCheckFailed]\<rparr>)
            else decode_and_process P cfg S recv_start_timestamp clk st bytes_received))"

text \<open>
  Lines 306--351: where the payload starts and how many bytes the message has, for each of the
  two encodings. The sum is cast to \<^verbatim>\<open>uint32_t\<close>.
\<close>

definition udp_payload_offset_of :: "config \<Rightarrow> nat" where
  "udp_payload_offset_of cfg = (if use_msgpack cfg then length udp_msg_start_seq + 4 else 0)"

definition bytes_to_receive_of :: "config \<Rightarrow> 32 word \<Rightarrow> nat" where
  "bytes_to_receive_of cfg payload_length_bytes =
     (if use_msgpack cfg
      then (unat payload_length_bytes + length udp_msg_start_seq + 2 * 4) mod 2 ^ 32
      else (unat payload_length_bytes + 4) mod 2 ^ 32)"

text \<open>
  Lines 301--497: one iteration of the loop, from its \<^verbatim>\<open>Receive\<close> on. Its input: whether the
  control channel is up at the loop test, what the \<^verbatim>\<open>Receive\<close> of line 301 brings, what those
  of line 337 bring, and the clock readings of lines 487 and 489.
\<close>

record iteration_input =
  connected :: bool
  received :: recv_event
  chunks :: "recv_event list"
  update_clock :: "real \<times> real"

definition loop_iteration ::
  "parsers \<Rightarrow> config \<Rightarrow> nat \<Rightarrow> nat \<Rightarrow> receiver \<Rightarrow> iteration_input \<Rightarrow> receiver outcome" where
  "loop_iteration P cfg S fuel st inp =
     (case Receive st (received inp) of (st1, bytes_received) \<Rightarrow>
        if bytes_received > length udp_msg_start_seq + 8 \<and>
           take (length udp_msg_start_seq) (udp_buffer st1) = udp_msg_start_seq
        then
          (let recv_start_timestamp = now st1 in
           if use_msgpack cfg then
             (let payload_length_bytes =
                    Convert4Byte P (take 4 (drop (length udp_msg_start_seq) (udp_buffer st1)))
              in verify_and_process P cfg S recv_start_timestamp (update_clock inp) st1
                   bytes_received
                   (bytes_to_receive_of cfg payload_length_bytes) (udp_payload_offset_of cfg))
           else
             (case accumulate fuel P recv_start_timestamp 0 (st1, bytes_received) (chunks inp) of
                None \<Rightarrow> Blocked
              | Some (parse_success, payload_length_bytes, (st2, bytes_received2)) \<Rightarrow>
                  if \<not> parse_success
                  then Done (st2\<lparr>logged := logged st2 @ [CompactPayloadParseFailed]\<rparr>)
                  else verify_and_process P cfg S recv_start_timestamp (update_clock inp) st2
                         bytes_received2
                         (bytes_to_receive_of cfg payload_length_bytes)
                         (udp_payload_offset_of cfg)))
        else Done st1)"

text \<open>Lines 299--498: the loop runs while the flag is set and the control channel is up.\<close>

fun run_loop ::
  "parsers \<Rightarrow> config \<Rightarrow> nat \<Rightarrow> nat \<Rightarrow> receiver \<Rightarrow> iteration_input list \<Rightarrow> receiver outcome" where
  "run_loop P cfg S fuel st [] = Done st"
| "run_loop P cfg S fuel st (inp # rest) =
     (if running st \<and> connected inp then
        (case loop_iteration P cfg S fuel st inp of
           Done st' \<Rightarrow> run_loop P cfg S fuel st' rest
         | Fault f \<Rightarrow> Fault f
         | Blocked \<Rightarrow> Blocked)
      else Done st)"

subsection \<open>Notions used to state the properties\<close>

text \<open>
  What a slot holds of an absorbed segment: \<^verbatim>\<open>emplace_front\<close> builds a default segment and
  \<^verbatim>\<open>swapSegmentsNoIMU\<close> moves everything but the inertial sample into it.
\<close>

definition stored :: "ScanSegmentParserOutput \<Rightarrow> ScanSegmentParserOutput" where
  "stored s = fst (swapSegmentsNoIMU ScanSegmentParserOutput_default s)"

text \<open>
  The indices touched by a sequence of segments: those of the segments that carry at least
  one point group.
\<close>

definition touched :: "ScanSegmentParserOutput list \<Rightarrow> nat set" where
  "touched segs =
     set (map (\<lambda>s. size_t_of_int (segmentIndex s)) (filter (\<lambda>s. scandata s \<noteq> []) segs))"

text \<open>The time of the front element of slot \<open>i\<close> in nanoseconds, as a natural number.\<close>

definition front_time :: "accumulator \<Rightarrow> nat \<Rightarrow> nat" where
  "front_time a i =
     unat (timestamp_sec (hd (samples a i))) * 1000000000 + unat (timestamp_nsec (hd (samples a i)))"




text \<open>The inertial message of a segment, if it has a valid sample: what lines 389--412 publish.\<close>

definition imu_of :: "config \<Rightarrow> ScanSegmentParserOutput \<Rightarrow> published list" where
  "imu_of cfg segment = (if valid (imudata segment) then [ImuMsg (imu_msg cfg segment)] else [])"

text \<open>
  The presence set as the specification words it: the indices touched since the last reset,
  where a reset happens when all twelve have been touched; and the number of frames that
  are due over a sequence of segments. \<open>scans\<close> picks the frames out of the published messages.
\<close>

fun presence_since_reset :: "nat set \<Rightarrow> ScanSegmentParserOutput list \<Rightarrow> nat set" where
  "presence_since_reset T [] = T"
| "presence_since_reset T (s # ss) =
     (let T1 = T \<union> touched [s]
      in presence_since_reset (if {0..<MS100_SEGMENTS_PER_FRAME} \<subseteq> T1 then {} else T1) ss)"

fun frames_due :: "nat set \<Rightarrow> ScanSegmentParserOutput list \<Rightarrow> nat" where
  "frames_due T [] = 0"
| "frames_due T (s # ss) =
     (let T1 = T \<union> touched [s]
      in if {0..<MS100_SEGMENTS_PER_FRAME} \<subseteq> T1 then Suc (frames_due {} ss) else frames_due T1 ss)"

definition scans :: "published list \<Rightarrow> PointCloud2 list" where
  "scans outs = concat (map (\<lambda>m. case m of ScanMsg sc \<Rightarrow> [sc] | ImuMsg i \<Rightarrow> []) outs)"

subsection \<open>Example values\<close>

text \<open>Concrete configurations, segments and accumulators, on which the theorems are instantiated.\<close>

definition example_cfg :: config where
  "example_cfg = \<lparr>lidar_frame_id = ''lidar_link'', use_msgpack = False, udp_dropout_reset_thresh = 2,
            udp_receive_timeout = 1, max_segment_buffering = 3\<rparr>"

definition example_point :: LidarPoint where
  "example_point = \<lparr>point_mem = [1, 2, 3, 4, 5, 6, 7, 8, 9, 10, 11, 12, 13, 14, 15, 16],
       lidar_timestamp_microsec = 0, reflectorbit = 0\<rparr>"

definition example_segment :: "int \<Rightarrow> nat \<Rightarrow> LidarPoint list \<Rightarrow> ScanSegmentParserOutput" where
  "example_segment i t ps =
     \<lparr>scandata = [\<lparr>scanlines = [\<lparr>points = ps\<rparr>]\<rparr>], timestamp = [], timestamp_sec = word_of_nat t,
      timestamp_nsec = 7, segmentIndex = i, telegramCnt = 0, imudata = CompactImuData_default\<rparr>"

definition example_full :: accumulator where
  "example_full =
     \<lparr>samples = (\<lambda>i. [example_segment (int i) (100 + i) (if i = 0 then [example_point] else []),
                       example_segment (int i) 50 [example_point, example_point]]),
      filled_segments = 4095\<rparr>"

definition example_arrivals :: "ScanSegmentParserOutput list" where
  "example_arrivals = map (\<lambda>k. example_segment (int k) k []) [3, 0, 1, 2, 10, 5, 6, 7, 8, 9, 4]"

definition example_Convert4Byte :: "byte list \<Rightarrow> 32 word" where
  "example_Convert4Byte bs = foldr (\<lambda>b w. ucast b + 256 * w) bs 0"

definition example_checksum :: "32 word \<Rightarrow> byte list \<Rightarrow> 32 word" where
  "example_checksum c bs = foldl (\<lambda>w b. w + ucast b) c bs"

definition example_ParseSegment :: "byte list \<Rightarrow> nat \<Rightarrow> bool \<times> 32 word \<times> 32 word" where
  "example_ParseSegment buf n =
     (if n < 16 then (False, 0, 12)
      else if n < 16 + unat (buf ! 12) then (False, 0, 12 + ucast (buf ! 12))
      else (True, 12 + ucast (buf ! 12), 12 + ucast (buf ! 12)))"

definition example_parsers :: parsers where
  "example_parsers =
     \<lparr>Convert4Byte = example_Convert4Byte,
      crc32 = example_checksum,
      ParseSegment = example_ParseSegment,
      MsgPackParser_Parse = (\<lambda>buf t. Some (example_segment (uint (buf ! 8)) 0 [])),
      CompactDataParser_Parse = (\<lambda>buf t. Some (example_segment (uint (buf ! 8)) 0 []))\<rparr>"

definition example_cfg_msgpack :: config where
  "example_cfg_msgpack = example_cfg\<lparr>use_msgpack := True\<rparr>"

definition example_datagram :: "byte list" where
  "example_datagram = [2, 2, 2, 2, 1, 0, 0, 0, 7, 7, 0, 0, 0]"

definition arrival :: "byte list \<Rightarrow> real \<Rightarrow> iteration_input" where
  "arrival bs t =
     \<lparr>connected = True, received = \<lparr>ev_data = bs, ev_time = t, ev_running = True\<rparr>,
      chunks = [], update_clock = (t, t)\<rparr>"

definition example_trace :: "iteration_input list" where
  "example_trace = [arrival example_datagram 10, arrival [] 11, arrival [] 12, arrival [] 13]"






definition example_eleven :: accumulator where
  "example_eleven =
     \<lparr>samples = (\<lambda>i. if i < 11 then [example_segment (int i) (100 + i) [], example_segment (int i) 20 []]
                       else []),
      filled_segments = 2047\<rparr>"

section \<open>Lifecycle\<close>

lemma shutdown_after_start:
  "shutdown (start (MultiscanNode a)) = Inr \<lparr>is_running = False, recv_thread_joinable = False\<rparr>"
  by (simp add: shutdown_def start_def MultiscanNode_def thread_join_def)

text \<open>
  C10. A node constructed with \<^verbatim>\<open>autostart = false\<close> on which \<^verbatim>\<open>start\<close> was never called has
  \<^verbatim>\<open>is_running = true\<close> and no thread. \<^verbatim>\<open>shutdown\<close> (which the destructor calls) passes its
  guard through the flag alone and calls \<^verbatim>\<open>join\<close> on the thread that is not joinable: the
  precondition of \<^verbatim>\<open>join\<close> fails.
\<close>

theorem shutdown_without_start_joins_unstarted_thread:
  "is_running (MultiscanNode False) \<and>
   \<not> recv_thread_joinable (MultiscanNode False) \<and>
   shutdown (MultiscanNode False) = Inl ThreadNotJoinable"
  by (simp add: shutdown_def MultiscanNode_def thread_join_def)

section \<open>Field layout and stride\<close>

lemma scan_fields_length: "length (scan_fields S) = NUM_POINT_FIELDS S"
  by (simp add: scan_fields_def NUM_POINT_FIELDS_def NUM_CONTIGUOUS_POINT_FIELDS_def c_bool_def
      POINT_FIELD_ENABLE_UP_TO_INTENSITY_def POINT_FIELD_ENABLE_UP_TO_RANGE_def
      POINT_FIELD_ENABLE_UP_TO_ANGULAR_def POINT_FIELD_ENABLE_UP_TO_POINT_IDX_def)

text \<open>
  C2. The claim asks for a stride of 16 bytes when the layout \<^verbatim>\<open>xyz, intensity\<close>
  (\<^verbatim>\<open>POINT_FIELD_ENABLE_UP_TO_INTENSITY\<close>, line 26) is configured. The macros of lines 43--50 mask
  the selector with 4, so the masked value is 0 for the layouts 1, 2 and 3: three fields are
  counted, the intensity descriptor is left out and the stride is 12 bytes.
\<close>

theorem intensity_layout_stride_is_12:
  "POINT_BYTE_LEN POINT_FIELD_ENABLE_UP_TO_INTENSITY = 12 \<and>
   map pf_name (scan_fields POINT_FIELD_ENABLE_UP_TO_INTENSITY) = [''x'', ''y'', ''z'']"
  by (simp add: POINT_BYTE_LEN_def NUM_POINT_FIELDS_def NUM_CONTIGUOUS_POINT_FIELDS_def
      c_bool_def scan_fields_def field_def
      POINT_FIELD_ENABLE_UP_TO_INTENSITY_def POINT_FIELD_ENABLE_UP_TO_RANGE_def
      POINT_FIELD_ENABLE_UP_TO_ANGULAR_def POINT_FIELD_ENABLE_UP_TO_POINT_IDX_def
      POINT_FIELD_ENABLE_TS_def POINT_FIELD_ENABLE_REFLECTOR_def)

section \<open>The ring buffer and the frame builder\<close>


lemma absorb_empty: "scandata s = [] \<Longrightarrow> absorb m a s = Inr a"
  by (simp add: absorb_def)

lemma absorb_out_of_range:
  "scandata s \<noteq> [] \<Longrightarrow> \<not> size_t_of_int (segmentIndex s) < MS100_SEGMENTS_PER_FRAME \<Longrightarrow>
   absorb m a s = Inl SlotIndexOutOfRange"
  by (simp add: absorb_def Let_def)

lemma absorb_push:
  assumes "scandata s \<noteq> []" and "size_t_of_int (segmentIndex s) < MS100_SEGMENTS_PER_FRAME"
    and "0 < size_t_of_int m"
  shows "absorb m a s =
     Inr (a\<lparr>samples := (samples a)(size_t_of_int (segmentIndex s) :=
                 take (size_t_of_int m) (stored s # samples a (size_t_of_int (segmentIndex s)))),
            filled_segments := filled_segments a OR push_bit (size_t_of_int (segmentIndex s)) 1\<rparr>)"
proof -
  obtain k where k: "size_t_of_int m = Suc k"
    using assms(3) by (cases "size_t_of_int m") auto
  show ?thesis
    using assms(1,2)
    by (simp add: absorb_def Let_def k deque_resize_def stored_def swapSegmentsNoIMU_def
        ScanSegmentParserOutput_default_def)
qed

lemma absorb_zero_depth:
  "scandata s \<noteq> [] \<Longrightarrow> size_t_of_int (segmentIndex s) < MS100_SEGMENTS_PER_FRAME \<Longrightarrow>
   size_t_of_int m = 0 \<Longrightarrow> absorb m a s = Inl FrontOfEmptyDeque"
  by (simp add: absorb_def Let_def deque_resize_def)




lemma full_mask_iff:
  fixes w :: "64 word"
  assumes "\<forall>j. bit w j \<longrightarrow> j < 12"
  shows "(w \<ge> push_bit MS100_SEGMENTS_PER_FRAME 1 - 1) \<longleftrightarrow> (\<forall>i<12. bit w i)"
    and "(w \<ge> push_bit MS100_SEGMENTS_PER_FRAME 1 - 1) \<longleftrightarrow> w = 4095"
proof -
  have m: "push_bit MS100_SEGMENTS_PER_FRAME 1 - 1 = (mask 12 :: 64 word)"
    by (simp add: MS100_SEGMENTS_PER_FRAME_def mask_eq_exp_minus_1)
  have "w AND mask 12 = w"
    by (rule bit_eqI) (use assms in \<open>auto simp add: bit_and_iff bit_mask_iff\<close>)
  then have le: "w \<le> mask 12"
    by (metis word_and_le1)
  have eq: "w = mask 12 \<longleftrightarrow> (\<forall>i<12. bit w i)"
    using assms by (auto simp add: bit_eq_iff bit_mask_iff)
  show "(w \<ge> push_bit MS100_SEGMENTS_PER_FRAME 1 - 1) \<longleftrightarrow> (\<forall>i<12. bit w i)"
    using le eq unfolding m by auto
  show "(w \<ge> push_bit MS100_SEGMENTS_PER_FRAME 1 - 1) \<longleftrightarrow> w = 4095"
    using le unfolding m by (auto simp add: mask_eq_exp_minus_1)
qed

lemma bit_or_push_1:
  fixes w :: "64 word"
  assumes "i < 12"
  shows "bit (w OR push_bit i 1) j \<longleftrightarrow> bit w j \<or> j = i"
  using assms by (auto simp add: bit_simps)

lemma touched_Cons:
  "touched (s # ss) = (if scandata s \<noteq> [] then {size_t_of_int (segmentIndex s)} else {}) \<union> touched ss"
  by (simp add: touched_def)

lemma absorb_all_invariant:
  assumes "0 < size_t_of_int m"
    and "\<forall>s\<in>set segs. scandata s \<noteq> [] \<longrightarrow> size_t_of_int (segmentIndex s) < MS100_SEGMENTS_PER_FRAME"
  shows "\<exists>a'. absorb_all m a segs = Inr a' \<and>
           (\<forall>j. bit (filled_segments a') j \<longleftrightarrow> bit (filled_segments a) j \<or> j \<in> touched segs) \<and>
           (\<forall>j. j \<in> touched segs \<longrightarrow> samples a' j \<noteq> []) \<and>
           (\<forall>j. j \<notin> touched segs \<longrightarrow> samples a' j = samples a j)"
  using assms(2)
proof (induction segs arbitrary: a)
  case Nil
  then show ?case by (simp add: touched_def)
next
  case (Cons s ss)
  show ?case
  proof (cases "scandata s = []")
    case True
    then show ?thesis
      using Cons.IH [of a] Cons.prems by (simp add: absorb_empty touched_Cons)
  next
    case False
    let ?i = "size_t_of_int (segmentIndex s)"
    have i: "?i < MS100_SEGMENTS_PER_FRAME" using Cons.prems False by simp
    then have i12: "?i < 12" by (simp add: MS100_SEGMENTS_PER_FRAME_def)
    let ?a1 = "a\<lparr>samples := (samples a)(?i := take (size_t_of_int m) (stored s # samples a ?i)),
                 filled_segments := filled_segments a OR push_bit ?i 1\<rparr>"
    have step: "absorb m a s = Inr ?a1"
      using absorb_push [OF False i assms(1)] .
    have ne: "samples ?a1 ?i \<noteq> []"
      using assms(1) by (cases "size_t_of_int m") auto
    obtain a' where a': "absorb_all m ?a1 ss = Inr a'"
      and bits: "\<forall>j. bit (filled_segments a') j \<longleftrightarrow> bit (filled_segments ?a1) j \<or> j \<in> touched ss"
      and nonempty: "\<forall>j. j \<in> touched ss \<longrightarrow> samples a' j \<noteq> []"
      and same: "\<forall>j. j \<notin> touched ss \<longrightarrow> samples a' j = samples ?a1 j"
      using Cons.IH [of ?a1] Cons.prems by auto
    have "absorb_all m a (s # ss) = Inr a'"
      using step a' by simp
    moreover have "\<forall>j. bit (filled_segments a') j \<longleftrightarrow> bit (filled_segments a) j \<or> j \<in> touched (s # ss)"
      using bits bit_or_push_1 [OF i12] False by (auto simp add: touched_Cons)
    moreover have "\<forall>j. j \<in> touched (s # ss) \<longrightarrow> samples a' j \<noteq> []"
      using nonempty same ne False by (auto simp add: touched_Cons)
    moreover have "\<forall>j. j \<notin> touched (s # ss) \<longrightarrow> samples a' j = samples a j"
      using same False by (auto simp add: touched_Cons)
    ultimately show ?thesis by blast
  qed
qed



lemma assemble_slots_fronts:
  assumes "distinct js" and "\<forall>j\<in>set js. smp j \<noteq> []"
  shows "assemble_slots S js (e, d, smp) =
           Inr (foldl min e (map (\<lambda>j. segment_ts (hd (smp j))) js),
                d @ concat (map (\<lambda>j. segment_records S (hd (smp j))) js),
                (\<lambda>k. if k \<in> set js then [] else smp k))"
  using assms
proof (induction js arbitrary: e d smp)
  case Nil
  then show ?case by simp
next
  case (Cons i js)
  obtain seg older where q: "smp i = seg # older"
    using Cons.prems(2) by (cases "smp i") auto
  have d: "distinct js" and notin: "i \<notin> set js"
    using Cons.prems(1) by auto
  have ne: "\<forall>j\<in>set js. (smp(i := [])) j \<noteq> []"
    using Cons.prems(2) notin by auto
  have same: "\<And>j. j \<in> set js \<Longrightarrow> (smp(i := [])) j = smp j"
    using notin by auto
  have m: "(if segment_ts seg < e then segment_ts seg else e) = min e (segment_ts seg)"
    by (auto simp add: min_def)
  have maps: "map (\<lambda>j. segment_ts (hd ((smp(i := [])) j))) js = map (\<lambda>j. segment_ts (hd (smp j))) js"
    "map (\<lambda>j. segment_records S (hd ((smp(i := [])) j))) js = map (\<lambda>j. segment_records S (hd (smp j))) js"
    using same by auto
  have upd: "(\<lambda>k. if k \<in> set js then [] else (smp(i := [])) k) =
             (\<lambda>k. if k \<in> set (i # js) then [] else smp k)"
    by (auto simp add: fun_eq_iff)
  have "assemble_slots S (i # js) (e, d, smp) =
          assemble_slots S js (min e (segment_ts seg), d @ segment_records S seg, smp(i := []))"
    using q by (simp add: Let_def m segment_records_def)
  also have "\<dots> = Inr (foldl min (min e (segment_ts seg)) (map (\<lambda>j. segment_ts (hd (smp j))) js),
                        (d @ segment_records S seg) @ concat (map (\<lambda>j. segment_records S (hd (smp j))) js),
                        (\<lambda>k. if k \<in> set (i # js) then [] else smp k))"
    using Cons.IH [OF d ne, of "min e (segment_ts seg)" "d @ segment_records S seg"]
    unfolding maps upd .
  finally show ?case
    using q by simp
qed

lemma foldl_min_Min:
  fixes e :: "'a::linorder"
  shows "foldl min e xs = Min (set (e # xs))"
proof -
  have "(\<lambda>x s. min s x) = (min :: 'a \<Rightarrow> 'a \<Rightarrow> 'a)"
    by (simp add: fun_eq_iff min.commute)
  then show ?thesis
    by (simp add: foldl_conv_fold Min.set_eq_fold del: set_simps)
qed

lemma unat_segment_ts:
  "unat (segment_ts seg) = unat (timestamp_sec seg) * 1000000000 + unat (timestamp_nsec seg)"
proof -
  have a: "unat (timestamp_sec seg) < 2 ^ 32" and b: "unat (timestamp_nsec seg) < 2 ^ 32"
    using unsigned_less [of "timestamp_sec seg"] unsigned_less [of "timestamp_nsec seg"] by simp_all
  have "unat (timestamp_sec seg) * 1000000000 + unat (timestamp_nsec seg) < 2 ^ 64"
    using a b by simp
  moreover have "unat (ucast (timestamp_sec seg) :: 64 word) = unat (timestamp_sec seg)"
    and "unat (ucast (timestamp_nsec seg) :: 64 word) = unat (timestamp_nsec seg)"
    using a b by (simp_all add: unsigned_ucast_eq take_bit_nat_eq_self)
  ultimately show ?thesis
    unfolding segment_ts_def
    by (simp add: unat_word_ariths)
qed

lemma unat_Min_word:
  fixes A :: "'a::len word set"
  assumes "finite A" and "A \<noteq> {}"
  shows "unat (Min A) = Min (unat ` A)"
  by (rule mono_Min_commute [OF _ assms]) (simp add: mono_def word_le_nat_alt)

lemma split_ts:
  fixes w :: "64 word"
  shows "(ucast (w div 1000000000) :: 32 word) = word_of_nat (unat w div 1000000000)"
    and "(ucast (w mod 1000000000) :: 32 word) = word_of_nat (unat w mod 1000000000)"
proof -
  have u: "\<And>v :: 64 word. (ucast v :: 32 word) = word_of_nat (unat v)"
    by simp
  show "(ucast (w div 1000000000) :: 32 word) = word_of_nat (unat w div 1000000000)"
    unfolding u by (simp add: unat_div)
  show "(ucast (w mod 1000000000) :: 32 word) = word_of_nat (unat w mod 1000000000)"
    unfolding u by (simp add: unat_mod)
qed

lemma stored_eq: "stored s = s\<lparr>imudata := CompactImuData_default\<rparr>"
  by (simp add: stored_def swapSegmentsNoIMU_def ScanSegmentParserOutput_default_def)

lemma take_append_take: "take n (xs @ take n ys) = take n (xs @ ys)"
  by (simp add: min_def)

lemma absorb_all_same_index:
  assumes "0 < size_t_of_int m" and "i < MS100_SEGMENTS_PER_FRAME"
    and "\<forall>s\<in>set segs. scandata s \<noteq> [] \<and> size_t_of_int (segmentIndex s) = i"
    and "segs \<noteq> []"
  shows "\<exists>a'. absorb_all m a segs = Inr a' \<and>
           samples a' i = take (size_t_of_int m) (map stored (rev segs) @ samples a i) \<and>
           bit (filled_segments a') i"
  using assms(3,4)
proof (induction segs arbitrary: a)
  case Nil
  then show ?case by simp
next
  case (Cons s ss)
  let ?a1 = "a\<lparr>samples := (samples a)(i := take (size_t_of_int m) (stored s # samples a i)),
               filled_segments := filled_segments a OR push_bit i 1\<rparr>"
  have i12: "i < 12" using assms(2) by (simp add: MS100_SEGMENTS_PER_FRAME_def)
  have step: "absorb m a s = Inr ?a1"
    using absorb_push [of s m a] Cons.prems(1) assms(1,2) by simp
  show ?case
  proof (cases "ss = []")
    case True
    then show ?thesis
      using step bit_or_push_1 [OF i12, of "filled_segments a" i] by simp
  next
    case False
    obtain a' where a': "absorb_all m ?a1 ss = Inr a'"
      and q: "samples a' i = take (size_t_of_int m) (map stored (rev ss) @ samples ?a1 i)"
      and b: "bit (filled_segments a') i"
      using Cons.IH [of ?a1] Cons.prems(1) False by auto
    have "samples a' i = take (size_t_of_int m) (map stored (rev (s # ss)) @ samples a i)"
      using q by (simp add: take_append_take)
    then show ?thesis
      using step a' b by simp
  qed
qed

lemma assemble_scan_fronts:
  assumes "\<forall>i<MS100_SEGMENTS_PER_FRAME. samples a i \<noteq> []"
  shows "assemble_slots S [0..<MS100_SEGMENTS_PER_FRAME] (- 1, [], samples a) =
           Inr (Min ((\<lambda>i. segment_ts (hd (samples a i))) ` {0..<MS100_SEGMENTS_PER_FRAME}),
                concat (map (\<lambda>i. segment_records S (hd (samples a i))) [0..<MS100_SEGMENTS_PER_FRAME]),
                (\<lambda>k. if k < MS100_SEGMENTS_PER_FRAME then [] else samples a k))"
proof -
  let ?f = "\<lambda>i. segment_ts (hd (samples a i))"
  have ne: "{0..<MS100_SEGMENTS_PER_FRAME} \<noteq> {}"
    by (simp add: MS100_SEGMENTS_PER_FRAME_def)
  have "foldl min (- 1) (map ?f [0..<MS100_SEGMENTS_PER_FRAME]) =
          Min (insert (- 1) (?f ` {0..<MS100_SEGMENTS_PER_FRAME}))"
    by (simp add: foldl_min_Min)
  also have "\<dots> = min (- 1) (Min (?f ` {0..<MS100_SEGMENTS_PER_FRAME}))"
    using ne by (subst Min_insert) auto
  also have "\<dots> = Min (?f ` {0..<MS100_SEGMENTS_PER_FRAME})"
    by (rule min_absorb2) simp
  finally have e: "foldl min (- 1) (map ?f [0..<MS100_SEGMENTS_PER_FRAME]) =
          Min (?f ` {0..<MS100_SEGMENTS_PER_FRAME})" .
  show ?thesis
    using assemble_slots_fronts [of "[0..<MS100_SEGMENTS_PER_FRAME]" "samples a" S "- 1" "[]"] assms
    by (simp add: e)
qed

lemma assemble_scan_total:
  assumes "\<forall>i<MS100_SEGMENTS_PER_FRAME. samples a i \<noteq> []"
  shows "\<exists>scan a'. assemble_scan cfg S a = Inr (scan, a')"
  by (simp add: assemble_scan_def assemble_scan_fronts [OF assms])

lemma touched_snoc: "touched (xs @ [s]) = touched xs \<union> touched [s]"
  by (auto simp add: touched_def)

lemma upt_12: "[0..<12] = [0, 1, 2, 3, 4, 5, 6, 7, 8, 9, 10, 11 :: nat]"
  by (simp add: numeral_eq_Suc)

lemma example_full_nonempty: "\<forall>i<MS100_SEGMENTS_PER_FRAME. samples example_full i \<noteq> []"
  by (simp add: example_full_def)

text \<open>
  The stride and the point count of a frame. Every record has \<open>POINT_BYTE_LEN\<close> bytes, which
  is four bytes for each field descriptor published, whatever the layout; twelve fronts of
  900 points give a frame of 10800 records. A frame published by \<open>process_segment\<close> leaves
  the accumulator reset.
\<close>

lemma length_write_at: "length (write_at off bs r) = length r"
  by (simp add: write_at_def)

lemma length_point_record: "length (point_record S p) = POINT_BYTE_LEN S"
  by (simp add: point_record_def Let_def length_write_at)

lemma length_segment_records:
  "length (segment_records S seg) = POINT_BYTE_LEN S * length (segment_points seg)"
  by (simp add: segment_records_def length_concat comp_def length_point_record sum_list_triv)

lemma POINT_BYTE_LEN_bounds: "12 \<le> POINT_BYTE_LEN S" "POINT_BYTE_LEN S \<le> 52"
  by (simp_all add: POINT_BYTE_LEN_def NUM_POINT_FIELDS_def NUM_CONTIGUOUS_POINT_FIELDS_def c_bool_def)

lemma point_step_matches_fields:
  assumes "assemble_scan cfg S a = Inr (scan, a')"
  shows "pc_point_step scan = 4 * length (pc_fields scan)"
  using assms
  by (auto simp add: assemble_scan_def POINT_BYTE_LEN_def scan_fields_length split: sum.splits)

lemma nominal_frame_width:
  assumes "\<forall>i<MS100_SEGMENTS_PER_FRAME. samples a i \<noteq> [] \<and>
             length (segment_points (hd (samples a i))) = MS100_POINTS_PER_SEGMENT_ECHO"
  shows "\<exists>scan a'. assemble_scan cfg S a = Inr (scan, a') \<and>
           pc_width scan = 10800 \<and> pc_point_step scan = POINT_BYTE_LEN S \<and>
           length (pc_data scan) = 10800 * POINT_BYTE_LEN S"
proof -
  have ne: "\<forall>i<MS100_SEGMENTS_PER_FRAME. samples a i \<noteq> []"
    using assms by simp
  have eq: "map (\<lambda>i. length (segment_records S (hd (samples a i)))) [0..<MS100_SEGMENTS_PER_FRAME] =
        map (\<lambda>i. POINT_BYTE_LEN S * 900) [0..<MS100_SEGMENTS_PER_FRAME]"
    using assms by (simp add: length_segment_records MS100_POINTS_PER_SEGMENT_ECHO_def)
  have "length (concat (map (\<lambda>i. segment_records S (hd (samples a i))) [0..<MS100_SEGMENTS_PER_FRAME])) =
        sum_list (map (\<lambda>i. length (segment_records S (hd (samples a i)))) [0..<MS100_SEGMENTS_PER_FRAME])"
    by (simp add: length_concat comp_def)
  also have "\<dots> = sum_list (map (\<lambda>i. POINT_BYTE_LEN S * 900) [0..<MS100_SEGMENTS_PER_FRAME])"
    unfolding eq ..
  also have "\<dots> = 10800 * POINT_BYTE_LEN S"
    by (simp add: sum_list_triv MS100_SEGMENTS_PER_FRAME_def)
  finally have len: "length (concat (map (\<lambda>i. segment_records S (hd (samples a i)))
                    [0..<MS100_SEGMENTS_PER_FRAME])) = 10800 * POINT_BYTE_LEN S" .
  have pos: "0 < POINT_BYTE_LEN S" and small: "10800 * POINT_BYTE_LEN S < 2 ^ 32"
    using POINT_BYTE_LEN_bounds [of S] by simp_all
  show ?thesis
    using len pos small
    by (simp add: assemble_scan_def assemble_scan_fronts [OF ne])
qed

lemma assemble_slots_Inr:
  assumes "assemble_slots S js (e, d, smp) = Inr (e', d', smp')"
  shows "smp' k = (if k \<in> set js then [] else smp k)"
  using assms
proof (induction js arbitrary: e d smp)
  case Nil
  then show ?case by simp
next
  case (Cons i js)
  then obtain seg older where q: "smp i = seg # older"
    by (cases "smp i") auto
  then have "smp' k = (if k \<in> set js then [] else (smp(i := [])) k)"
    using Cons.prems Cons.IH by (simp add: Let_def)
  then show ?case by auto
qed

lemma process_segment_frame_resets:
  assumes "process_segment cfg S a segment = Inr (a', out)" and "ScanMsg scan \<in> set out"
  shows "(\<forall>i<MS100_SEGMENTS_PER_FRAME. samples a' i = []) \<and> filled_segments a' = 0"
proof -
  obtain a1 where a1: "absorb (max_segment_buffering cfg) a segment = Inr a1"
    using assms(1) by (auto simp add: process_segment_def Let_def split: sum.splits if_splits)
  have c: "frame_complete a1"
    using assms a1 by (auto simp add: process_segment_def Let_def split: if_splits sum.splits)
  then obtain sc where sc: "assemble_scan cfg S a1 = Inr (sc, a')"
    using assms(1) a1 by (auto simp add: process_segment_def Let_def split: sum.splits if_splits)
  then obtain e d smp where r: "assemble_slots S [0..<MS100_SEGMENTS_PER_FRAME] (- 1, [], samples a1) = Inr (e, d, smp)"
    and a': "a' = a1\<lparr>samples := smp, filled_segments := 0\<rparr>"
    by (auto simp add: assemble_scan_def split: sum.splits)
  show ?thesis
    using assemble_slots_Inr [OF r] a' by simp
qed

text \<open>
  C9. The slot array is indexed with the segment's index as it comes from the decoder: a segment
  with a point group whose index, converted to \<^verbatim>\<open>size_t\<close>, is not below 12 reaches
  \<^verbatim>\<open>samples[idx]\<close> out of range. That is the one way into this fault, and no input is turned away
  before it: the access is in bounds exactly under the precondition \<open>segmentIndex < 12\<close>.
\<close>

theorem absorb_in_bounds_iff:
  "absorb m a s = Inl SlotIndexOutOfRange \<longleftrightarrow>
     scandata s \<noteq> [] \<and> \<not> size_t_of_int (segmentIndex s) < MS100_SEGMENTS_PER_FRAME"
  by (auto simp add: absorb_def Let_def split: list.splits if_splits)

theorem absorb_in_bounds_iff_witness:
  "absorb 3 accumulator_init (example_segment 12 0 []) = Inl SlotIndexOutOfRange \<and>
   absorb 3 accumulator_init (example_segment (- 1) 0 []) = Inl SlotIndexOutOfRange \<and>
   absorb 3 accumulator_init (example_segment 11 0 []) \<noteq> Inl SlotIndexOutOfRange"
  using absorb_in_bounds_iff [of 3 accumulator_init "example_segment 12 0 []"]
    absorb_in_bounds_iff [of 3 accumulator_init "example_segment (- 1) 0 []"]
    absorb_in_bounds_iff [of 3 accumulator_init "example_segment 11 0 []"]
  by (simp add: size_t_of_int_def MS100_SEGMENTS_PER_FRAME_def example_segment_def)

text \<open>
  C4. With a maximum depth \<open>m\<close> (a positive \<^verbatim>\<open>int\<close>), absorbing \<open>m + 1\<close> segments that
  each carry a point group into the slot of one index \<open>i < 12\<close> leaves that slot with exactly
  \<open>m\<close> entries: the \<open>m\<close> segments pushed last, the newest in front (each as the slot stores
  it, that is without its inertial sample), and bit \<open>i\<close> of the presence mask is set. The
  accumulator before the pushes is arbitrary.
\<close>

theorem absorb_bounded_depth:
  assumes "0 < m" and "m < 2 ^ 31"
    and "i < MS100_SEGMENTS_PER_FRAME"
    and "\<forall>s\<in>set segs. scandata s \<noteq> [] \<and> size_t_of_int (segmentIndex s) = i"
    and "length segs = nat m + 1"
  shows "\<exists>a'. absorb_all m a segs = Inr a' \<and>
           length (samples a' i) = nat m \<and>
           samples a' i = map stored (take (nat m) (rev segs)) \<and>
           bit (filled_segments a') i"
proof -
  have M: "size_t_of_int m = nat m"
    using assms(1,2) by (simp add: size_t_of_int_def)
  have pos: "0 < size_t_of_int m" using assms(1) M by simp
  have ne: "segs \<noteq> []" using assms(5) by auto
  obtain a' where a': "absorb_all m a segs = Inr a'"
    and q: "samples a' i = take (size_t_of_int m) (map stored (rev segs) @ samples a i)"
    and b: "bit (filled_segments a') i"
    using absorb_all_same_index [OF pos assms(3,4) ne, of a] by blast
  have "samples a' i = map stored (take (nat m) (rev segs))"
    using q assms(5) by (simp add: M take_map)
  moreover from this have "length (samples a' i) = nat m"
    using assms(5) by simp
  ultimately show ?thesis using a' b by blast
qed

theorem absorb_bounded_depth_witness:
  "\<exists>a'. absorb_all 2 accumulator_init
           [example_segment 5 10 [], example_segment 5 20 [], example_segment 5 30 []] = Inr a' \<and>
     length (samples a' 5) = 2 \<and>
     samples a' 5 = [example_segment 5 30 [], example_segment 5 20 []] \<and>
     bit (filled_segments a') 5"
  using absorb_bounded_depth [of 2 5
      "[example_segment 5 10 [], example_segment 5 20 [], example_segment 5 30 []]" accumulator_init]
  by (simp add: MS100_SEGMENTS_PER_FRAME_def size_t_of_int_def example_segment_def stored_eq)

lemma ScanMsg_notin_imu_of: "ScanMsg scan \<notin> set (imu_of cfg segment)"
  by (simp add: imu_of_def)

lemma process_segment_cases:
  "process_segment cfg S a segment =
     (case absorb (max_segment_buffering cfg) a segment of
        Inl f \<Rightarrow> Inl f
      | Inr a1 \<Rightarrow>
          if frame_complete a1 then
            (case assemble_scan cfg S a1 of
               Inl f \<Rightarrow> Inl f
             | Inr (scan, a2) \<Rightarrow> Inr (a2, imu_of cfg segment @ [ScanMsg scan]))
          else Inr (a1, imu_of cfg segment))"
  unfolding process_segment_def imu_of_def Let_def by (rule refl)

lemma assemble_scan_mask: "assemble_scan cfg S a = Inr (scan, a') \<Longrightarrow> filled_segments a' = 0"
  by (auto simp add: assemble_scan_def split: sum.splits)

lemma process_segment_step:
  assumes depth: "0 < size_t_of_int (max_segment_buffering cfg)"
    and wf: "scandata s \<noteq> [] \<longrightarrow> size_t_of_int (segmentIndex s) < MS100_SEGMENTS_PER_FRAME"
    and bits: "\<forall>j. bit (filled_segments a) j \<longleftrightarrow> j \<in> T"
    and slots: "\<forall>j\<in>T. j < MS100_SEGMENTS_PER_FRAME \<and> samples a j \<noteq> []"
  shows "\<exists>a1. absorb (max_segment_buffering cfg) a s = Inr a1 \<and>
           (\<forall>j. bit (filled_segments a1) j \<longleftrightarrow> j \<in> T \<union> touched [s]) \<and>
           (\<forall>j\<in>T \<union> touched [s]. j < MS100_SEGMENTS_PER_FRAME \<and> samples a1 j \<noteq> []) \<and>
           (frame_complete a1 \<longleftrightarrow> filled_segments a1 = 4095) \<and>
           (frame_complete a1 \<longleftrightarrow> {0..<MS100_SEGMENTS_PER_FRAME} \<subseteq> T \<union> touched [s]) \<and>
           (if frame_complete a1
            then \<exists>scan a'. process_segment cfg S a s = Inr (a', imu_of cfg s @ [ScanMsg scan]) \<and>
                   filled_segments a' = 0
            else process_segment cfg S a s = Inr (a1, imu_of cfg s))"
proof -
  have wfs: "\<forall>x\<in>set [s]. scandata x \<noteq> [] \<longrightarrow> size_t_of_int (segmentIndex x) < MS100_SEGMENTS_PER_FRAME"
    using wf by simp
  obtain a1 where a1: "absorb (max_segment_buffering cfg) a s = Inr a1"
    and b1: "\<forall>j. bit (filled_segments a1) j \<longleftrightarrow> bit (filled_segments a) j \<or> j \<in> touched [s]"
    and ne1: "\<forall>j. j \<in> touched [s] \<longrightarrow> samples a1 j \<noteq> []"
    and same1: "\<forall>j. j \<notin> touched [s] \<longrightarrow> samples a1 j = samples a j"
    using absorb_all_invariant [OF depth wfs, of a] by (auto split: sum.splits)
  have t12: "\<forall>j\<in>touched [s]. j < MS100_SEGMENTS_PER_FRAME"
    using wf by (auto simp add: touched_def)
  have B: "\<forall>j. bit (filled_segments a1) j \<longleftrightarrow> j \<in> T \<union> touched [s]"
    using b1 bits by simp
  have N: "\<forall>j\<in>T \<union> touched [s]. j < MS100_SEGMENTS_PER_FRAME \<and> samples a1 j \<noteq> []"
    using slots ne1 same1 t12 by (metis Un_iff)
  have low: "\<forall>j. bit (filled_segments a1) j \<longrightarrow> j < 12"
    using B N by (auto simp add: MS100_SEGMENTS_PER_FRAME_def)
  have c1: "frame_complete a1 \<longleftrightarrow> filled_segments a1 = 4095"
    unfolding frame_complete_def using full_mask_iff(2) [OF low] .
  have c2: "frame_complete a1 \<longleftrightarrow> {0..<MS100_SEGMENTS_PER_FRAME} \<subseteq> T \<union> touched [s]"
    unfolding frame_complete_def using full_mask_iff(1) [OF low] B
    by (auto simp add: MS100_SEGMENTS_PER_FRAME_def)
  have P: "if frame_complete a1
            then \<exists>scan a'. process_segment cfg S a s = Inr (a', imu_of cfg s @ [ScanMsg scan]) \<and>
                   filled_segments a' = 0
            else process_segment cfg S a s = Inr (a1, imu_of cfg s)"
  proof (cases "frame_complete a1")
    case True
    then have "\<forall>i<MS100_SEGMENTS_PER_FRAME. samples a1 i \<noteq> []"
      using c2 N by auto
    then obtain scan a' where r: "assemble_scan cfg S a1 = Inr (scan, a')"
      using assemble_scan_total [of a1 cfg S] by blast
    then show ?thesis
      using True a1 assemble_scan_mask [OF r] by (simp add: process_segment_cases)
  next
    case False
    then show ?thesis using a1 by (simp add: process_segment_cases)
  qed
  show ?thesis
    using a1 B N c1 c2 P by blast
qed

lemma process_all_open:
  assumes depth: "0 < size_t_of_int (max_segment_buffering cfg)"
    and wf: "\<forall>x\<in>set segs. scandata x \<noteq> [] \<longrightarrow> size_t_of_int (segmentIndex x) < MS100_SEGMENTS_PER_FRAME"
    and bits: "\<forall>j. bit (filled_segments a) j \<longleftrightarrow> j \<in> T"
    and slots: "\<forall>j\<in>T. j < MS100_SEGMENTS_PER_FRAME \<and> samples a j \<noteq> []"
    and "open": "\<not> {0..<MS100_SEGMENTS_PER_FRAME} \<subseteq> T \<union> touched segs"
  shows "\<exists>a' outs. process_all cfg S a segs = Inr (a', outs) \<and>
           absorb_all (max_segment_buffering cfg) a segs = Inr a' \<and>
           (\<forall>scan. ScanMsg scan \<notin> set outs) \<and>
           (\<forall>j. bit (filled_segments a') j \<longleftrightarrow> j \<in> T \<union> touched segs) \<and>
           (\<forall>j\<in>T \<union> touched segs. j < MS100_SEGMENTS_PER_FRAME \<and> samples a' j \<noteq> [])"
  using wf bits slots "open"
proof (induction segs arbitrary: a T)
  case Nil
  then show ?case by (simp add: touched_def)
next
  case (Cons s ss)
  have wfs: "scandata s \<noteq> [] \<longrightarrow> size_t_of_int (segmentIndex s) < MS100_SEGMENTS_PER_FRAME"
    using Cons.prems(1) by simp
  have tc: "touched (s # ss) = touched [s] \<union> touched ss"
    by (auto simp add: touched_def)
  obtain a1 where a1: "absorb (max_segment_buffering cfg) a s = Inr a1"
    and B: "\<forall>j. bit (filled_segments a1) j \<longleftrightarrow> j \<in> T \<union> touched [s]"
    and N: "\<forall>j\<in>T \<union> touched [s]. j < MS100_SEGMENTS_PER_FRAME \<and> samples a1 j \<noteq> []"
    and c: "frame_complete a1 \<longleftrightarrow> {0..<MS100_SEGMENTS_PER_FRAME} \<subseteq> T \<union> touched [s]"
    and P: "if frame_complete a1
            then \<exists>scan a'. process_segment cfg S a s = Inr (a', imu_of cfg s @ [ScanMsg scan]) \<and>
                   filled_segments a' = 0
            else process_segment cfg S a s = Inr (a1, imu_of cfg s)"
    using process_segment_step [OF depth wfs Cons.prems(2,3), of S] by blast
  have nc: "\<not> frame_complete a1"
    using c Cons.prems(4) tc by auto
  then have p: "process_segment cfg S a s = Inr (a1, imu_of cfg s)"
    using P by simp
  have o: "\<not> {0..<MS100_SEGMENTS_PER_FRAME} \<subseteq> (T \<union> touched [s]) \<union> touched ss"
    using Cons.prems(4) tc by (simp add: Un_assoc)
  obtain a' outs where r: "process_all cfg S a1 ss = Inr (a', outs)"
    and ab: "absorb_all (max_segment_buffering cfg) a1 ss = Inr a'"
    and no: "\<forall>scan. ScanMsg scan \<notin> set outs"
    and B': "\<forall>j. bit (filled_segments a') j \<longleftrightarrow> j \<in> (T \<union> touched [s]) \<union> touched ss"
    and N': "\<forall>j\<in>(T \<union> touched [s]) \<union> touched ss. j < MS100_SEGMENTS_PER_FRAME \<and> samples a' j \<noteq> []"
    using Cons.IH [OF _ B N o] Cons.prems(1) by auto
  have "process_all cfg S a (s # ss) = Inr (a', imu_of cfg s @ outs)"
    using p r by simp
  moreover have "absorb_all (max_segment_buffering cfg) a (s # ss) = Inr a'"
    using a1 ab by simp
  moreover have "\<forall>scan. ScanMsg scan \<notin> set (imu_of cfg s @ outs)"
    using no by (simp add: ScanMsg_notin_imu_of)
  ultimately show ?case
    using B' N' unfolding tc Un_assoc by blast
qed

text \<open>
  C3. Let the loop process the segments \<open>segs\<close> one after the other with \<open>process_segment\<close>,
  from an accumulator whose presence mask is zero (a reset), and let \<open>segs\<close> not yet have touched
  all twelve indices. Then no frame has been published, and the accumulator the loop holds has
  bit \<open>i\<close> set iff index \<open>i\<close> has been touched by \<open>segs\<close>. For the next segment \<open>s\<close>: the mask
  tested on line 426 has bit \<open>i\<close> set iff \<open>i\<close> has been touched by \<open>segs\<close> and \<open>s\<close>; the test holds iff
  that mask is all-ones (4095), iff all twelve indices have been touched; \<open>process_segment\<close>
  publishes a frame iff they have, and then hands on a mask of zero, otherwise the mask tested.
  The set \<open>touched\<close> does not depend on the order of arrival.
\<close>

theorem frames_fire_iff_all_touched:
  assumes depth: "0 < size_t_of_int (max_segment_buffering cfg)"
    and wf: "\<forall>x\<in>set (segs @ [s]). scandata x \<noteq> [] \<longrightarrow>
           size_t_of_int (segmentIndex x) < MS100_SEGMENTS_PER_FRAME"
    and reset: "filled_segments a0 = 0"
    and "open": "\<not> {0..<MS100_SEGMENTS_PER_FRAME} \<subseteq> touched segs"
  shows "\<exists>a outs a1 a' out.
           process_all cfg S a0 segs = Inr (a, outs) \<and>
           (\<forall>scan. ScanMsg scan \<notin> set outs) \<and>
           (\<forall>i<MS100_SEGMENTS_PER_FRAME. bit (filled_segments a) i \<longleftrightarrow> i \<in> touched segs) \<and>
           absorb (max_segment_buffering cfg) a s = Inr a1 \<and>
           (\<forall>i<MS100_SEGMENTS_PER_FRAME. bit (filled_segments a1) i \<longleftrightarrow> i \<in> touched (segs @ [s])) \<and>
           (frame_complete a1 \<longleftrightarrow> filled_segments a1 = 4095) \<and>
           (frame_complete a1 \<longleftrightarrow> {0..<MS100_SEGMENTS_PER_FRAME} \<subseteq> touched (segs @ [s])) \<and>
           process_segment cfg S a s = Inr (a', out) \<and>
           ((\<exists>scan. ScanMsg scan \<in> set out) \<longleftrightarrow>
              {0..<MS100_SEGMENTS_PER_FRAME} \<subseteq> touched (segs @ [s])) \<and>
           (if {0..<MS100_SEGMENTS_PER_FRAME} \<subseteq> touched (segs @ [s])
            then filled_segments a' = 0 else a' = a1)"
proof -
  have wf1: "\<forall>x\<in>set segs. scandata x \<noteq> [] \<longrightarrow> size_t_of_int (segmentIndex x) < MS100_SEGMENTS_PER_FRAME"
    and wfs: "scandata s \<noteq> [] \<longrightarrow> size_t_of_int (segmentIndex s) < MS100_SEGMENTS_PER_FRAME"
    using wf by auto
  have b0: "\<forall>j. bit (filled_segments a0) j \<longleftrightarrow> j \<in> {}"
    using reset by simp
  have n0: "\<forall>j\<in>{}. j < MS100_SEGMENTS_PER_FRAME \<and> samples a0 j \<noteq> []"
    by simp
  have o0: "\<not> {0..<MS100_SEGMENTS_PER_FRAME} \<subseteq> {} \<union> touched segs"
    using "open" by simp
  obtain a outs where r: "process_all cfg S a0 segs = Inr (a, outs)"
    and no: "\<forall>scan. ScanMsg scan \<notin> set outs"
    and B: "\<forall>j. bit (filled_segments a) j \<longleftrightarrow> j \<in> touched segs"
    and N: "\<forall>j\<in>touched segs. j < MS100_SEGMENTS_PER_FRAME \<and> samples a j \<noteq> []"
    using process_all_open [OF depth wf1 b0 n0 o0, of S] by auto
  obtain a1 where a1: "absorb (max_segment_buffering cfg) a s = Inr a1"
    and B1': "\<forall>j. bit (filled_segments a1) j \<longleftrightarrow> j \<in> touched segs \<union> touched [s]"
    and c1: "frame_complete a1 \<longleftrightarrow> filled_segments a1 = 4095"
    and c2': "frame_complete a1 \<longleftrightarrow> {0..<MS100_SEGMENTS_PER_FRAME} \<subseteq> touched segs \<union> touched [s]"
    and P: "if frame_complete a1
            then \<exists>scan a'. process_segment cfg S a s = Inr (a', imu_of cfg s @ [ScanMsg scan]) \<and>
                   filled_segments a' = 0
            else process_segment cfg S a s = Inr (a1, imu_of cfg s)"
    using process_segment_step [OF depth wfs B N, of S] by blast
  have B1: "\<forall>j. bit (filled_segments a1) j \<longleftrightarrow> j \<in> touched (segs @ [s])"
    using B1' unfolding touched_snoc .
  have c2: "frame_complete a1 \<longleftrightarrow> {0..<MS100_SEGMENTS_PER_FRAME} \<subseteq> touched (segs @ [s])"
    using c2' unfolding touched_snoc .
  have "\<exists>a' out. process_segment cfg S a s = Inr (a', out) \<and>
           ((\<exists>scan. ScanMsg scan \<in> set out) \<longleftrightarrow>
              {0..<MS100_SEGMENTS_PER_FRAME} \<subseteq> touched (segs @ [s])) \<and>
           (if {0..<MS100_SEGMENTS_PER_FRAME} \<subseteq> touched (segs @ [s])
            then filled_segments a' = 0 else a' = a1)"
  proof (cases "frame_complete a1")
    case True
    then obtain scan a' where "process_segment cfg S a s = Inr (a', imu_of cfg s @ [ScanMsg scan])"
      and "filled_segments a' = 0"
      using P by auto
    then show ?thesis using True c2 by auto
  next
    case False
    then have "process_segment cfg S a s = Inr (a1, imu_of cfg s)"
      using P by simp
    then show ?thesis using False c2 by (simp add: ScanMsg_notin_imu_of)
  qed
  then show ?thesis
    using r no B a1 B1 c1 c2 by blast
qed

theorem frames_fire_iff_all_touched_witness:
  "\<exists>a outs a' out scan.
     process_all example_cfg POINT_FIELD_ENABLE_ALL accumulator_init example_arrivals = Inr (a, outs) \<and>
     (\<forall>sc. ScanMsg sc \<notin> set outs) \<and>
     process_segment example_cfg POINT_FIELD_ENABLE_ALL a (example_segment 11 11 []) = Inr (a', out) \<and>
     ScanMsg scan \<in> set out \<and> filled_segments a' = 0"
proof -
  have t1: "touched example_arrivals = {3, 0, 1, 2, 10, 5, 6, 7, 8, 9, 4}"
    by (simp add: touched_def example_arrivals_def example_segment_def size_t_of_int_def)
  have t2: "touched (example_arrivals @ [example_segment 11 11 []]) = {3, 0, 1, 2, 10, 5, 6, 7, 8, 9, 4, 11}"
    by (auto simp add: touched_def example_arrivals_def example_segment_def size_t_of_int_def)
  have r: "{0..<MS100_SEGMENTS_PER_FRAME} = {0, 1, 2, 3, 4, 5, 6, 7, 8, 9, 10, 11}"
    by (simp add: MS100_SEGMENTS_PER_FRAME_def atLeastLessThan_upt upt_12 del: set_upt)
  have s1: "\<not> {0..<MS100_SEGMENTS_PER_FRAME} \<subseteq> touched example_arrivals"
    unfolding r t1 by simp
  have s2: "{0..<MS100_SEGMENTS_PER_FRAME} \<subseteq> touched (example_arrivals @ [example_segment 11 11 []])"
    unfolding r t2 by simp
  have h1: "0 < size_t_of_int (max_segment_buffering example_cfg)"
    by (simp add: example_cfg_def size_t_of_int_def)
  have h2: "\<forall>x\<in>set (example_arrivals @ [example_segment 11 11 []]). scandata x \<noteq> [] \<longrightarrow>
           size_t_of_int (segmentIndex x) < MS100_SEGMENTS_PER_FRAME"
    by (simp add: example_arrivals_def example_segment_def size_t_of_int_def MS100_SEGMENTS_PER_FRAME_def)
  have h3: "filled_segments accumulator_init = 0"
    by (simp add: accumulator_init_def)
  show ?thesis
    using frames_fire_iff_all_touched [OF h1 h2 h3 s1, of POINT_FIELD_ENABLE_ALL] s2
    by (simp only: if_True) blast
qed

text \<open>
  Over any sequence of segments from such an accumulator, resets included: the mask the loop
  holds is the presence set of the specification, and as many frames are published as are due.
\<close>

lemma scans_append: "scans (xs @ ys) = scans xs @ scans ys"
  by (simp add: scans_def)

lemma scans_imu_of: "scans (imu_of cfg s) = []"
  by (simp add: scans_def imu_of_def)

lemma scans_ScanMsg: "scans (ScanMsg sc # outs) = sc # scans outs"
  by (simp add: scans_def)

lemma process_all_presence:
  assumes depth: "0 < size_t_of_int (max_segment_buffering cfg)"
    and wf: "\<forall>x\<in>set segs. scandata x \<noteq> [] \<longrightarrow> size_t_of_int (segmentIndex x) < MS100_SEGMENTS_PER_FRAME"
    and bits: "\<forall>j. bit (filled_segments a) j \<longleftrightarrow> j \<in> T"
    and slots: "\<forall>j\<in>T. j < MS100_SEGMENTS_PER_FRAME \<and> samples a j \<noteq> []"
  shows "\<exists>a' outs. process_all cfg S a segs = Inr (a', outs) \<and>
           (\<forall>j. bit (filled_segments a') j \<longleftrightarrow> j \<in> presence_since_reset T segs) \<and>
           length (scans outs) = frames_due T segs"
  using wf bits slots
proof (induction segs arbitrary: a T)
  case Nil
  then show ?case by (simp add: scans_def)
next
  case (Cons s ss)
  have wfs: "scandata s \<noteq> [] \<longrightarrow> size_t_of_int (segmentIndex s) < MS100_SEGMENTS_PER_FRAME"
    and wfr: "\<forall>x\<in>set ss. scandata x \<noteq> [] \<longrightarrow> size_t_of_int (segmentIndex x) < MS100_SEGMENTS_PER_FRAME"
    using Cons.prems(1) by simp_all
  obtain a1 where B: "\<forall>j. bit (filled_segments a1) j \<longleftrightarrow> j \<in> T \<union> touched [s]"
    and N: "\<forall>j\<in>T \<union> touched [s]. j < MS100_SEGMENTS_PER_FRAME \<and> samples a1 j \<noteq> []"
    and c: "frame_complete a1 \<longleftrightarrow> {0..<MS100_SEGMENTS_PER_FRAME} \<subseteq> T \<union> touched [s]"
    and P: "if frame_complete a1
            then \<exists>scan a'. process_segment cfg S a s = Inr (a', imu_of cfg s @ [ScanMsg scan]) \<and>
                   filled_segments a' = 0
            else process_segment cfg S a s = Inr (a1, imu_of cfg s)"
    using process_segment_step [OF depth wfs Cons.prems(2,3), of S] by blast
  show ?case
  proof (cases "frame_complete a1")
    case True
    then obtain scan a2 where p: "process_segment cfg S a s = Inr (a2, imu_of cfg s @ [ScanMsg scan])"
      and z: "filled_segments a2 = 0"
      using P by auto
    have b2: "\<forall>j. bit (filled_segments a2) j \<longleftrightarrow> j \<in> {}" using z by simp
    have n2: "\<forall>j\<in>{}. j < MS100_SEGMENTS_PER_FRAME \<and> samples a2 j \<noteq> []" by simp
    obtain a' outs where r: "process_all cfg S a2 ss = Inr (a', outs)"
      and B': "\<forall>j. bit (filled_segments a') j \<longleftrightarrow> j \<in> presence_since_reset {} ss"
      and F: "length (scans outs) = frames_due {} ss"
      using Cons.IH [OF wfr b2 n2] by blast
    have "process_all cfg S a (s # ss) = Inr (a', (imu_of cfg s @ [ScanMsg scan]) @ outs)"
      using p r by simp
    moreover have "length (scans ((imu_of cfg s @ [ScanMsg scan]) @ outs)) = frames_due T (s # ss)"
      using F True c by (simp add: scans_append scans_imu_of scans_ScanMsg)
    moreover have "\<forall>j. bit (filled_segments a') j \<longleftrightarrow> j \<in> presence_since_reset T (s # ss)"
      using B' True c by simp
    ultimately show ?thesis by blast
  next
    case False
    then have p: "process_segment cfg S a s = Inr (a1, imu_of cfg s)"
      using P by simp
    obtain a' outs where r: "process_all cfg S a1 ss = Inr (a', outs)"
      and B': "\<forall>j. bit (filled_segments a') j \<longleftrightarrow> j \<in> presence_since_reset (T \<union> touched [s]) ss"
      and F: "length (scans outs) = frames_due (T \<union> touched [s]) ss"
      using Cons.IH [OF wfr B N] by blast
    have "process_all cfg S a (s # ss) = Inr (a', imu_of cfg s @ outs)"
      using p r by simp
    moreover have "length (scans (imu_of cfg s @ outs)) = frames_due T (s # ss)"
      using F False c by (simp add: scans_append scans_imu_of)
    moreover have "\<forall>j. bit (filled_segments a') j \<longleftrightarrow> j \<in> presence_since_reset T (s # ss)"
      using B' False c by simp
    ultimately show ?thesis by blast
  qed
qed

lemma process_all_append:
  "process_all cfg S a (xs @ ys) =
     (case process_all cfg S a xs of
        Inl f \<Rightarrow> Inl f
      | Inr (a', outs) \<Rightarrow>
          (case process_all cfg S a' ys of
             Inl f \<Rightarrow> Inl f
           | Inr (a'', outs') \<Rightarrow> Inr (a'', outs @ outs')))"
  by (induction xs arbitrary: a) (auto split: sum.splits)

text \<open>
  C5. Building a frame from an accumulator whose twelve slots are non-empty, however deep,
  succeeds and leaves all twelve slots empty and the presence mask zero. The frame holds the
  records of the front element of each slot only: what was queued behind is discarded.
\<close>

theorem assemble_scan_clears_slots:
  assumes "\<forall>i<MS100_SEGMENTS_PER_FRAME. samples a i \<noteq> []"
  shows "\<exists>scan a'. assemble_scan cfg S a = Inr (scan, a') \<and>
           (\<forall>i<MS100_SEGMENTS_PER_FRAME. samples a' i = []) \<and>
           filled_segments a' = 0 \<and>
           pc_data scan =
             concat (map (\<lambda>i. segment_records S (hd (samples a i))) [0..<MS100_SEGMENTS_PER_FRAME])"
  by (simp add: assemble_scan_def assemble_scan_fronts [OF assms])

theorem assemble_scan_clears_slots_witness:
  "\<exists>scan a'. assemble_scan example_cfg POINT_FIELD_ENABLE_UP_TO_XYZ example_full = Inr (scan, a') \<and>
     (\<forall>i<MS100_SEGMENTS_PER_FRAME. samples a' i = []) \<and> filled_segments a' = 0 \<and>
     pc_data scan = [1, 2, 3, 4, 5, 6, 7, 8, 9, 10, 11, 12]"
proof -
  have "concat (map (\<lambda>i. segment_records POINT_FIELD_ENABLE_UP_TO_XYZ (hd (samples example_full i)))
          [0..<MS100_SEGMENTS_PER_FRAME]) = [1, 2, 3, 4, 5, 6, 7, 8, 9, 10, 11, 12]"
    by (simp add: MS100_SEGMENTS_PER_FRAME_def upt_12 example_full_def example_segment_def
        segment_records_def segment_points_def point_record_def write_at_def example_point_def
        POINT_BYTE_LEN_def POINT_CONTINUOUS_BYTE_LEN_def NUM_POINT_FIELDS_def
        NUM_CONTIGUOUS_POINT_FIELDS_def c_bool_def POINT_FIELD_ENABLE_UP_TO_XYZ_def
        POINT_FIELD_ENABLE_TS_def POINT_FIELD_ENABLE_REFLECTOR_def)
  then show ?thesis
    using assemble_scan_clears_slots [OF example_full_nonempty, of example_cfg POINT_FIELD_ENABLE_UP_TO_XYZ]
    by simp
qed

text \<open>The stamp of the frame that \<open>assemble_scan\<close> builds.\<close>

lemma assemble_scan_stamp:
  assumes "\<forall>i<MS100_SEGMENTS_PER_FRAME. samples a i \<noteq> []"
  shows "\<exists>scan a'. assemble_scan cfg S a = Inr (scan, a') \<and>
           pc_stamp_sec scan =
             word_of_nat (Min (front_time a ` {0..<MS100_SEGMENTS_PER_FRAME}) div 1000000000) \<and>
           pc_stamp_nanosec scan =
             word_of_nat (Min (front_time a ` {0..<MS100_SEGMENTS_PER_FRAME}) mod 1000000000)"
proof -
  let ?f = "\<lambda>i. segment_ts (hd (samples a i))"
  have "unat (Min (?f ` {0..<MS100_SEGMENTS_PER_FRAME})) =
          Min (unat ` ?f ` {0..<MS100_SEGMENTS_PER_FRAME})"
    by (rule unat_Min_word) (simp_all add: MS100_SEGMENTS_PER_FRAME_def)
  also have "unat ` ?f ` {0..<MS100_SEGMENTS_PER_FRAME} = front_time a ` {0..<MS100_SEGMENTS_PER_FRAME}"
    by (simp add: image_image unat_segment_ts front_time_def)
  finally have u: "unat (Min (?f ` {0..<MS100_SEGMENTS_PER_FRAME})) =
          Min (front_time a ` {0..<MS100_SEGMENTS_PER_FRAME})" .
  show ?thesis
    by (simp add: assemble_scan_def assemble_scan_fronts [OF assms] split_ts u)
qed

lemma assemble_slots_Inr_nonempty:
  assumes "assemble_slots S js (e, d, smp) = Inr r" and "distinct js"
  shows "\<forall>j\<in>set js. smp j \<noteq> []"
  using assms
proof (induction js arbitrary: e d smp)
  case Nil
  then show ?case by simp
next
  case (Cons i js)
  then obtain seg older where q: "smp i = seg # older"
    by (cases "smp i") auto
  obtain e' d' where rec: "assemble_slots S js (e', d', smp(i := [])) = Inr r"
    using Cons.prems(1) q by (simp add: Let_def)
  have "\<forall>j\<in>set js. (smp(i := [])) j \<noteq> []"
    using Cons.IH [OF rec] Cons.prems(2) by simp
  moreover have "\<forall>j\<in>set js. j \<noteq> i"
    using Cons.prems(2) by auto
  ultimately have "\<forall>j\<in>set js. smp j \<noteq> []"
    by (metis fun_upd_other)
  then show ?case
    using q by simp
qed

lemma assemble_scan_Inr_nonempty:
  assumes "assemble_scan cfg S a = Inr (scan, a')"
  shows "\<forall>i<MS100_SEGMENTS_PER_FRAME. samples a i \<noteq> []"
proof -
  obtain r where "assemble_slots S [0..<MS100_SEGMENTS_PER_FRAME] (- 1, [], samples a) = Inr r"
    using assms by (auto simp add: assemble_scan_def split: sum.splits)
  then show ?thesis
    using assemble_slots_Inr_nonempty [of S "[0..<MS100_SEGMENTS_PER_FRAME]"] by fastforce
qed

lemma example_eleven_absorb:
  "absorb (max_segment_buffering example_cfg) example_eleven (example_segment 11 50 []) =
     Inr (example_eleven\<lparr>samples := (samples example_eleven)(11 := [example_segment 11 50 []]),
                         filled_segments := 4095\<rparr>)"
  by (simp add: absorb_def example_cfg_def example_eleven_def example_segment_def size_t_of_int_def
      MS100_SEGMENTS_PER_FRAME_def deque_resize_def swapSegmentsNoIMU_def
      ScanSegmentParserOutput_default_def Let_def)

text \<open>
  C6. Whenever \<open>process_segment\<close> publishes a frame, the twelve slots were non-empty when the
  frame was built (after the segment was absorbed), and the frame published is stamped with
  the minimum over the twelve slots of the front element's time
  \<open>seconds * 10^9 + nanoseconds\<close>, split into seconds (the quotient by \<open>10^9\<close>) and nanoseconds
  (the remainder), each stored in a 32-bit field.
\<close>

theorem published_scan_stamp_minimum:
  assumes "process_segment cfg S a segment = Inr (a', out)" and "ScanMsg scan \<in> set out"
  shows "\<exists>a1. absorb (max_segment_buffering cfg) a segment = Inr a1 \<and>
           frame_complete a1 \<and>
           (\<forall>i<MS100_SEGMENTS_PER_FRAME. samples a1 i \<noteq> []) \<and>
           pc_stamp_sec scan =
             word_of_nat (Min (front_time a1 ` {0..<MS100_SEGMENTS_PER_FRAME}) div 1000000000) \<and>
           pc_stamp_nanosec scan =
             word_of_nat (Min (front_time a1 ` {0..<MS100_SEGMENTS_PER_FRAME}) mod 1000000000)"
proof -
  obtain a1 where a1: "absorb (max_segment_buffering cfg) a segment = Inr a1"
    using assms(1) by (auto simp add: process_segment_cases split: sum.splits)
  have c: "frame_complete a1"
    using assms a1 by (auto simp add: process_segment_cases ScanMsg_notin_imu_of split: if_splits)
  obtain sc a2 where r: "assemble_scan cfg S a1 = Inr (sc, a2)"
    and o: "out = imu_of cfg segment @ [ScanMsg sc]"
    using assms(1) a1 c by (auto simp add: process_segment_cases split: sum.splits)
  have sc: "sc = scan"
    using assms(2) o by (simp add: ScanMsg_notin_imu_of)
  have ne: "\<forall>i<MS100_SEGMENTS_PER_FRAME. samples a1 i \<noteq> []"
    using assemble_scan_Inr_nonempty [OF r] .
  have "pc_stamp_sec sc =
             word_of_nat (Min (front_time a1 ` {0..<MS100_SEGMENTS_PER_FRAME}) div 1000000000) \<and>
        pc_stamp_nanosec sc =
             word_of_nat (Min (front_time a1 ` {0..<MS100_SEGMENTS_PER_FRAME}) mod 1000000000)"
    using assemble_scan_stamp [OF ne, of cfg S] r by auto
  then show ?thesis
    using a1 c ne sc by blast
qed

theorem published_scan_stamp_minimum_witness:
  "\<exists>a' scan. process_segment example_cfg POINT_FIELD_ENABLE_UP_TO_XYZ example_eleven
                 (example_segment 11 50 []) = Inr (a', [ScanMsg scan]) \<and>
     pc_stamp_sec scan = 50 \<and> pc_stamp_nanosec scan = 7"
proof -
  let ?a1 = "example_eleven\<lparr>samples := (samples example_eleven)(11 := [example_segment 11 50 []]),
                         filled_segments := 4095\<rparr>"
  have ne: "\<forall>i<MS100_SEGMENTS_PER_FRAME. samples ?a1 i \<noteq> []"
    by (simp add: example_eleven_def MS100_SEGMENTS_PER_FRAME_def)
  have c: "frame_complete ?a1"
    by (simp add: frame_complete_def MS100_SEGMENTS_PER_FRAME_def)
  obtain scan a' where r: "assemble_scan example_cfg POINT_FIELD_ENABLE_UP_TO_XYZ ?a1 = Inr (scan, a')"
    using assemble_scan_total [OF ne] by blast
  have p: "process_segment example_cfg POINT_FIELD_ENABLE_UP_TO_XYZ example_eleven
             (example_segment 11 50 []) = Inr (a', [ScanMsg scan])"
    unfolding process_segment_cases example_eleven_absorb
    using r c by (simp add: imu_of_def example_segment_def CompactImuData_default_def)
  have f: "\<And>i. i < 12 \<Longrightarrow> front_time ?a1 i = (if i = 11 then 50 else 100 + i) * 1000000000 + 7"
    by (simp add: front_time_def example_eleven_def example_segment_def unat_word_ariths unat_of_nat)
  have "front_time ?a1 ` {0..<MS100_SEGMENTS_PER_FRAME} =
          (\<lambda>i. (if i = 11 then 50 else 100 + i) * 1000000000 + 7) ` {0..<MS100_SEGMENTS_PER_FRAME}"
    by (rule image_cong) (simp_all add: f MS100_SEGMENTS_PER_FRAME_def)
  also have "Min \<dots> = 50000000007"
    unfolding MS100_SEGMENTS_PER_FRAME_def
    by (simp add: atLeastLessThan_upt Min.set_eq_fold upt_rec del: set_upt flip: set_map)
  finally have m: "Min (front_time ?a1 ` {0..<MS100_SEGMENTS_PER_FRAME}) = 50000000007" .
  have "pc_stamp_sec scan = 50 \<and> pc_stamp_nanosec scan = 7"
    using published_scan_stamp_minimum [OF p, of scan] example_eleven_absorb
    by (simp add: m)
  then show ?thesis using p by blast
qed

section \<open>The receive loop\<close>

text \<open>
  With a threshold of zero and the clock moving between lines 487 and 489, the next
  \<^verbatim>\<open>Receive\<close> blocks. A decoded segment goes through \<open>process_segment\<close> on the accumulator of
  the loop, whose result the loop keeps.
\<close>

lemma update_recv_timeout_zero_threshold:
  assumes "udp_dropout_reset_thresh cfg = 0" and "0 < bytes_received" and "fst clk < snd clk"
  shows "udp_recv_timeout (update_recv_timeout cfg st bytes_received clk) = - 1"
  using assms by (simp add: update_recv_timeout_def Let_def)

lemma decode_and_process_segment:
  assumes "(if use_msgpack cfg then MsgPackParser_Parse P (udp_buffer st) t0
            else CompactDataParser_Parse P (udp_buffer st) t0) = Some segment"
    and "process_segment cfg S (frame_acc st) segment = Inr (a, out)"
  shows "decode_and_process P cfg S t0 clk st n =
           Done (update_recv_timeout cfg
                  (st\<lparr>frame_acc := a, published_msgs := published_msgs st @ out\<rparr>) n clk)"
  using assms by (simp add: decode_and_process_def)

lemma zero_byte_receive:
  assumes "ev_data (received inp) = []"
  shows "loop_iteration P cfg S fuel st inp =
           Done (st\<lparr>now := ev_time (received inp), running := ev_running (received inp)\<rparr>)"
  using assms by (simp add: loop_iteration_def Receive_def)

lemma example_first_iteration:
  "loop_iteration example_parsers example_cfg_msgpack POINT_FIELD_ENABLE_ALL 0 (receiver_init 9)
     (arrival example_datagram 10) =
   Done ((receiver_init 9)\<lparr>udp_buffer := example_datagram @ replicate 65523 0, now := 10,
        timestamp_last_udp_recv := 10, udp_recv_timeout := 1,
        frame_acc := \<lparr>samples = (\<lambda>_. [])(7 := [example_segment 7 0 []]), filled_segments = 128\<rparr>\<rparr>)"
  by (simp add: loop_iteration_def Receive_def arrival_def example_datagram_def receiver_init_def
      udp_msg_start_seq_def example_cfg_msgpack_def example_cfg_def example_parsers_def
      example_Convert4Byte_def example_checksum_def bytes_to_receive_of_def udp_payload_offset_of_def
      verify_and_process_def decode_and_process_def RECV_BUFFER_SIZE_def
      process_segment_def absorb_def example_segment_def size_t_of_int_def MS100_SEGMENTS_PER_FRAME_def
      deque_resize_def swapSegmentsNoIMU_def ScanSegmentParserOutput_default_def
      CompactImuData_default_def accumulator_init_def frame_complete_def update_recv_timeout_def Let_def)

text \<open>
  C1. The claim: while the time since the last non-empty receive is below the dropout
  threshold the next \<^verbatim>\<open>Receive\<close> gets the short timeout, once it is above the threshold the
  next \<^verbatim>\<open>Receive\<close> blocks, and an empty receive never resets the clock. The timeout is chosen
  on lines 485--496, which stand inside the block entered for a datagram of more than twelve
  bytes with the start sequence, where the clock has just been reset. An empty receive skips
  the block (\<open>zero_byte_receive\<close>): it leaves the clock alone, and the timeout too. In the
  run below a datagram arrives at time 10 and three receives time out, at 11, 12 and 13:
  three seconds after the last datagram, with a threshold of two, the next \<^verbatim>\<open>Receive\<close> still
  gets the timeout of one second.
\<close>

theorem dropout_threshold_passed_timeout_kept:
  "run_loop example_parsers example_cfg_msgpack POINT_FIELD_ENABLE_ALL 0 (receiver_init 9) example_trace =
     Done ((receiver_init 9)\<lparr>udp_buffer := example_datagram @ replicate 65523 0, now := 13,
        timestamp_last_udp_recv := 10, udp_recv_timeout := 1,
        frame_acc := \<lparr>samples = (\<lambda>_. [])(7 := [example_segment 7 0 []]), filled_segments = 128\<rparr>\<rparr>) \<and>
   udp_dropout_reset_thresh example_cfg_msgpack = 2 \<and>
   udp_receive_timeout example_cfg_msgpack = 1"
proof -
  have z: "\<And>t st. loop_iteration example_parsers example_cfg_msgpack POINT_FIELD_ENABLE_ALL 0 st (arrival [] t) =
             Done (st\<lparr>now := t, running := True\<rparr>)"
    using zero_byte_receive [of "arrival [] _"] by (simp add: arrival_def)
  have c: "\<And>bs t. connected (arrival bs t)"
    by (simp add: arrival_def)
  have r: "running (receiver_init 9)"
    by (simp add: receiver_init_def)
  let ?st1 = "(receiver_init 9)\<lparr>udp_buffer := example_datagram @ replicate 65523 0, now := 10,
        timestamp_last_udp_recv := 10, udp_recv_timeout := 1,
        frame_acc := \<lparr>samples = (\<lambda>_. [])(7 := [example_segment 7 0 []]), filled_segments = 128\<rparr>\<rparr>"
  have "run_loop example_parsers example_cfg_msgpack POINT_FIELD_ENABLE_ALL 0 (receiver_init 9) example_trace =
          run_loop example_parsers example_cfg_msgpack POINT_FIELD_ENABLE_ALL 0 ?st1
            [arrival [] 11, arrival [] 12, arrival [] 13]"
    by (simp add: example_trace_def example_first_iteration c r)
  also have "\<dots> = Done (?st1\<lparr>now := 13\<rparr>)"
    by (simp add: z c) (simp add: receiver_init_def)
  finally show ?thesis
    by (simp add: example_cfg_msgpack_def example_cfg_def)
qed























end
